theory Spec2Isabelle
  imports Complex_Main "HOL-Library.Multiset"
begin

section \<open>The assembled-exam endpoint of \<open>server.js\<close>\<close>

text \<open>
  The theory embeds the handler of \<open>GET /exams/assembled\<close> (\<open>server.js\<close>, lines
  1194 to 1290) with its three local functions \<open>buildBlocksForExam\<close>, \<open>pickBlocks\<close> and
  the two loops of the handler body, and the helper \<open>shuffle\<close> (line 97).
\<close>

subsection \<open>JavaScript numbers\<close>

text \<open>
  A JavaScript Number is an IEEE 754 double: \<open>NaN\<close>, one of the two infinities, or a
  finite value. \<open>Fin x\<close> stands for the finite double whose value is the rational
  \<open>x\<close>. The result of a multiplication or a division is the double nearest to the exact
  result, the one with the even significand of two equally near (\<open>fl\<close> below), or an
  infinity beyond the range. The sign of zero is not modelled: no comparison of the handler
  tells \<open>-0\<close> from \<open>0\<close>.
\<close>

datatype jsnum = NaN | NegInf | Fin rat | PosInf

text \<open>The number of binary digits of a positive integer.\<close>

function bit_length :: "int \<Rightarrow> nat" where
  "bit_length n = (if n \<le> 0 then 0 else Suc (bit_length (n div 2)))"
  by pat_completeness auto
termination
  by (relation "measure nat") auto

declare bit_length.simps [simp del]

text \<open>
  \<open>binade a\<close> is the exponent \<open>e\<close> with \<open>2 ^ e \<le> a < 2 ^ (e + 1)\<close> of a positive
  rational, found from the bit lengths of its numerator and denominator.
\<close>

definition binade :: "rat \<Rightarrow> int" where
  "binade a =
     (let (p, q) = quotient_of a;
          d = int (bit_length p) - int (bit_length q)
      in if 2 powi d \<le> a then d else d - 1)"

text \<open>
  The distance between neighbouring doubles around \<open>a\<close>: 53 significant bits, and the
  subnormal spacing \<open>2 ^ (- 1074)\<close> at the bottom of the range.
\<close>

definition quantum :: "rat \<Rightarrow> rat" where
  "quantum a = 2 powi (max (binade a - 52) (- 1074))"

text \<open>The nearest integer, the even one of two equally near.\<close>

definition round_even :: "rat \<Rightarrow> int" where
  "round_even r =
     (if r - of_int \<lfloor>r\<rfloor> < 1 / 2 then \<lfloor>r\<rfloor>
      else if 1 / 2 < r - of_int \<lfloor>r\<rfloor> then \<lfloor>r\<rfloor> + 1
      else if even \<lfloor>r\<rfloor> then \<lfloor>r\<rfloor> else \<lfloor>r\<rfloor> + 1)"

text \<open>The least magnitude beyond the finite doubles, \<open>2 ^ 1024\<close>, written out.\<close>

definition overflow_threshold :: rat where
  "overflow_threshold =
     179769313486231590772930519078902473361797697894230657273430081157732675805500963132708477322407536021120113879871393357658789768814416622492847430639474124377767893424865485276302219601246094119453082952085005768838150682342462881473913110540827237163350510684586298239947245938479716304835356329624224137216"

text \<open>
  \<open>fl x\<close>: the double an operation returns whose exact result is \<open>x\<close>. A rounded
  magnitude of \<open>2 ^ 1024\<close> or more is an infinity.
\<close>

definition fl :: "rat \<Rightarrow> jsnum" where
  "fl x =
     (if x = 0 then Fin 0
      else
        (let y = of_int (round_even (\<bar>x\<bar> / quantum \<bar>x\<bar>)) * quantum \<bar>x\<bar>
         in if overflow_threshold \<le> y then (if 0 < x then PosInf else NegInf)
            else Fin (if 0 < x then y else - y)))"

text \<open>\<open>a <= b\<close> on Numbers: false as soon as one side is \<open>NaN\<close>.\<close>

fun js_le :: "jsnum \<Rightarrow> jsnum \<Rightarrow> bool" where
  "js_le NaN b = False"
| "js_le a NaN = False"
| "js_le NegInf b = True"
| "js_le a PosInf = True"
| "js_le (Fin x) (Fin y) = (x \<le> y)"
| "js_le PosInf b = False"
| "js_le a NegInf = False"

text \<open>\<open>a > b\<close> on Numbers.\<close>

fun js_gt :: "jsnum \<Rightarrow> jsnum \<Rightarrow> bool" where
  "js_gt NaN b = False"
| "js_gt a NaN = False"
| "js_gt PosInf PosInf = False"
| "js_gt PosInf b = True"
| "js_gt NegInf b = False"
| "js_gt (Fin x) (Fin y) = (x > y)"
| "js_gt (Fin x) NegInf = True"
| "js_gt (Fin x) PosInf = False"

text \<open>\<open>a * b\<close> on Numbers: an infinity times zero is \<open>NaN\<close>.\<close>

definition js_sign :: "jsnum \<Rightarrow> int" where
  "js_sign a =
     (case a of NaN \<Rightarrow> 0 | NegInf \<Rightarrow> - 1 | PosInf \<Rightarrow> 1
      | Fin x \<Rightarrow> (if x > 0 then 1 else if x < 0 then - 1 else 0))"

definition js_mul :: "jsnum \<Rightarrow> jsnum \<Rightarrow> jsnum" where
  "js_mul a b =
     (case (a, b) of
        (NaN, _) \<Rightarrow> NaN
      | (_, NaN) \<Rightarrow> NaN
      | (Fin x, Fin y) \<Rightarrow> fl (x * y)
      | _ \<Rightarrow> (if js_sign a * js_sign b = 0 then NaN
              else if js_sign a * js_sign b > 0 then PosInf else NegInf))"

text \<open>\<open>a / 100\<close>: the only division of the handler, by a positive finite literal.\<close>

definition js_div100 :: "jsnum \<Rightarrow> jsnum" where
  "js_div100 a = (case a of Fin x \<Rightarrow> fl (x / 100) | _ \<Rightarrow> a)"

text \<open>
  \<open>Math.round\<close>: the integral Number closest to the argument, the one closer to
  \<open>+\<infinity>\<close> of two equally close ones; \<open>NaN\<close> and the infinities are returned unchanged.
  The result is exact: a double of magnitude \<open>2 ^ 52\<close> or more is integral already, and
  below that the integer is a double.
\<close>

definition Math_round :: "jsnum \<Rightarrow> jsnum" where
  "Math_round a = (case a of Fin x \<Rightarrow> Fin (of_int \<lfloor>x + 1 / 2\<rfloor>) | _ \<Rightarrow> a)"

text \<open>\<open>Number.isFinite(v) ? v : 0\<close> for a field that may be missing or not a number.\<close>

definition finite_or_0 :: "jsnum option \<Rightarrow> rat" where
  "finite_or_0 v = (case v of Some (Fin x) \<Rightarrow> x | _ \<Rightarrow> 0)"

text \<open>\<open>v || 0\<close> for a numeric field: missing, \<open>NaN\<close> and zero are falsy.\<close>

definition or_0 :: "jsnum option \<Rightarrow> jsnum" where
  "or_0 v = (case v of None \<Rightarrow> Fin 0 | Some NaN \<Rightarrow> Fin 0 | Some n \<Rightarrow> n)"

subsection \<open>Questions, exams and blocks\<close>

text \<open>
  A question document as \<open>getAllExamsWithQuestions\<close> materialises it
  (\<open>{ id: q.id, ...q.data() }\<close>, fields of \<open>Doc.question\<close>). \<open>setId\<close> is \<open>None\<close> for
  \<open>null\<close> or a missing field; \<open>setOrder\<close> is \<open>None\<close> when the field is missing or not a
  Number.
\<close>

record question =
  q_id :: string
  q_text :: string
  q_options :: "string list"
  q_correctAnswer :: int
  q_image :: "string option"
  q_setId :: "string option"
  q_setOrder :: "jsnum option"

record exam =
  e_id :: string
  e_title :: string
  e_questionPercentage :: "jsnum option"
  e_questions :: "question list"

type_synonym block = "question list"

text \<open>
  Truthiness of \<open>q?.setId\<close>: \<open>null\<close>, a missing field and the empty string are falsy.
  The routes that write questions store \<open>setId || null\<close>; the set id is taken to be a
  string, and two set ids are the same \<open>Map\<close> key when they are equal strings.
\<close>

definition has_setId :: "question \<Rightarrow> bool" where
  "has_setId q = (case q_setId q of None \<Rightarrow> False | Some s \<Rightarrow> s \<noteq> [])"

definition setId_of :: "question \<Rightarrow> string" where
  "setId_of q = (case q_setId q of None \<Rightarrow> [] | Some s \<Rightarrow> s)"

subsection \<open>\<open>Array.prototype.sort\<close> with a comparator\<close>

text \<open>
  \<open>arr.sort(cmp)\<close> is stable; for a consistent comparator its result is the one a stable
  insertion sort gives. \<open>cmp a b\<close> is the Number the comparator returns.
\<close>

fun insert_by :: "('a \<Rightarrow> 'a \<Rightarrow> rat) \<Rightarrow> 'a \<Rightarrow> 'a list \<Rightarrow> 'a list" where
  "insert_by cmp x [] = [x]"
| "insert_by cmp x (y # ys) =
     (if cmp x y \<le> 0 then x # y # ys else y # insert_by cmp x ys)"

definition sort_by :: "('a \<Rightarrow> 'a \<Rightarrow> rat) \<Rightarrow> 'a list \<Rightarrow> 'a list" where
  "sort_by cmp xs = foldr (insert_by cmp) xs []"

subsection \<open>\<open>buildBlocksForExam\<close>\<close>

text \<open>
  \<open>groups\<close> is a \<open>Map\<close>, which iterates in insertion order of its keys: an association
  list, a new key added at the end, no key held twice. \<open>singles\<close> is the array of
  one-question blocks.
\<close>

type_synonym groups = "(string \<times> question list) list"

definition groups_has :: "groups \<Rightarrow> string \<Rightarrow> bool" where
  "groups_has groups k = (k \<in> set (map fst groups))"

text \<open>\<open>groups.set(k, [])\<close> for a key the map does not have.\<close>

definition groups_set_empty :: "groups \<Rightarrow> string \<Rightarrow> groups" where
  "groups_set_empty groups k = groups @ [(k, [])]"

text \<open>\<open>groups.get(k).push(q)\<close>: the array of the entry with key \<open>k\<close> grows by \<open>q\<close>.\<close>

fun groups_push :: "groups \<Rightarrow> string \<Rightarrow> question \<Rightarrow> groups" where
  "groups_push [] k q = []"
| "groups_push ((k', arr) # groups) k q =
     (if k' = k then (k', arr @ [q]) # groups else (k', arr) # groups_push groups k q)"

text \<open>The first loop: \<open>for (const q of exam.questions || [])\<close>.\<close>

fun bucket_loop :: "question list \<Rightarrow> groups \<times> block list \<Rightarrow> groups \<times> block list" where
  "bucket_loop [] st = st"
| "bucket_loop (q # qs) (groups, singles) =
     (if has_setId q then
        (let groups1 = (if \<not> groups_has groups (setId_of q)
                        then groups_set_empty groups (setId_of q) else groups)
         in bucket_loop qs (groups_push groups1 (setId_of q) q, singles))
      else bucket_loop qs (groups, singles @ [[q]]))"

text \<open>The comparator of the second loop.\<close>

definition setOrder_cmp :: "question \<Rightarrow> question \<Rightarrow> rat" where
  "setOrder_cmp a b = finite_or_0 (q_setOrder a) - finite_or_0 (q_setOrder b)"

text \<open>The second loop, \<open>for (const [, arr] of groups.entries())\<close>, then \<open>blocks.push(...singles)\<close>.\<close>

definition buildBlocksForExam :: "exam \<Rightarrow> block list" where
  "buildBlocksForExam exam =
     (let (groups, singles) = bucket_loop (e_questions exam) ([], [])
      in map (\<lambda>(k, arr). sort_by setOrder_cmp arr) groups @ singles)"

subsection \<open>\<open>shuffle\<close> and \<open>pickBlocks\<close>\<close>

text \<open>
  \<open>shuffle\<close> copies the array and sorts the copy with a comparator that draws from
  \<open>Math.random\<close>. The order the sort leaves depends on the engine and on the numbers
  drawn, so what one call returns is an argument of the model, of type
  \<open>'a list \<Rightarrow> 'a list\<close>. Sorting only moves the elements of the copy: \<open>is_shuffle\<close>
  says that the result holds the elements of the argument, each as often as the argument.
\<close>

definition is_shuffle :: "('a list \<Rightarrow> 'a list) \<Rightarrow> bool" where
  "is_shuffle sh = (\<forall>xs. mset (sh xs) = mset xs)"

text \<open>The loop of \<open>pickBlocks\<close>, on the state \<open>(picked, cnt)\<close> (\<open>cnt\<close> is the source's \<open>count\<close>).\<close>

fun pick_loop :: "jsnum \<Rightarrow> block list \<Rightarrow> block list \<times> nat \<Rightarrow> block list \<times> nat" where
  "pick_loop target [] st = st"
| "pick_loop target (b # pool) (picked, cnt) =
     (if js_le (Fin (of_nat (cnt + length b))) target
      then pick_loop target pool (picked @ [b], cnt + length b)
      else pick_loop target pool (picked, cnt))"

definition length_cmp :: "block \<Rightarrow> block \<Rightarrow> rat" where
  "length_cmp a b = of_nat (length a) - of_nat (length b)"

definition pickBlocks :: "(block list \<Rightarrow> block list) \<Rightarrow> block list \<Rightarrow> jsnum \<Rightarrow> block list" where
  "pickBlocks shuffle blocks target =
     (if js_le target (Fin 0) then []
      else
        (let pool = shuffle blocks;
             (picked, cnt) = pick_loop target pool ([], 0)
         in if picked = [] \<and> pool \<noteq> [] \<and> js_gt target (Fin 0)
            then (case sort_by length_cmp pool of
                    [] \<Rightarrow> picked
                  | smallest # rest \<Rightarrow> picked @ [smallest])
            else picked))"

subsection \<open>The handler\<close>

definition targetCount :: "jsnum \<Rightarrow> exam \<Rightarrow> jsnum" where
  "targetCount base exam =
     Math_round (js_div100 (js_mul base (or_0 (e_questionPercentage exam))))"

text \<open>
  \<open>for (const exam of exams)\<close>: the \<open>i\<close>-th exam's call of \<open>pickBlocks\<close> shuffles with
  \<open>shE i\<close>.
\<close>

fun exam_loop ::
  "(nat \<Rightarrow> block list \<Rightarrow> block list) \<Rightarrow> jsnum \<Rightarrow> exam list \<Rightarrow> nat \<Rightarrow> block list \<Rightarrow> block list" where
  "exam_loop shE base [] i allBlocks = allBlocks"
| "exam_loop shE base (exam # exams) i allBlocks =
     exam_loop shE base exams (Suc i)
       (allBlocks @ pickBlocks (shE i) (buildBlocksForExam exam) (targetCount base exam))"

text \<open>The trim loop on the state \<open>(finalQuestions, used)\<close>; its second branch ends in \<open>break\<close>.\<close>

fun trim_loop :: "jsnum \<Rightarrow> block list \<Rightarrow> question list \<times> nat \<Rightarrow> question list \<times> nat" where
  "trim_loop mx [] st = st"
| "trim_loop mx (b # bs) (finalQuestions, used) =
     (if js_le (Fin (of_nat (used + length b))) mx
      then trim_loop mx bs (finalQuestions @ b, used + length b)
      else if used = 0 then (finalQuestions @ b, used)
      else trim_loop mx bs (finalQuestions, used))"

text \<open>The blocks all exams contribute, and the question list after the trim.\<close>

definition allBlocks_of :: "(nat \<Rightarrow> block list \<Rightarrow> block list) \<Rightarrow> jsnum \<Rightarrow> exam list \<Rightarrow> block list" where
  "allBlocks_of shE base exams = exam_loop shE base exams 0 []"

definition finalQuestions_of ::
  "(nat \<Rightarrow> block list \<Rightarrow> block list) \<Rightarrow> (block list \<Rightarrow> block list) \<Rightarrow>
   jsnum \<Rightarrow> jsnum \<Rightarrow> exam list \<Rightarrow> question list" where
  "finalQuestions_of shE shG base mx exams =
     fst (trim_loop mx (shG (allBlocks_of shE base exams)) ([], 0))"

text \<open>
  The request: \<open>req.query.base\<close> and \<open>req.query.max\<close> are \<open>None\<close> when the parameter is
  absent and otherwise hold the Number that \<open>Number(...)\<close> makes of the parameter
  (\<open>NaN\<close> for text that is not a number); \<open>Number(undefined)\<close> is \<open>NaN\<close>.
\<close>

record request =
  query_base :: "jsnum option"
  query_max :: "jsnum option"
  query_absoluteImages :: bool

definition Number_of :: "jsnum option \<Rightarrow> jsnum" where
  "Number_of p = (case p of None \<Rightarrow> NaN | Some n \<Rightarrow> n)"

definition effective_base :: "request \<Rightarrow> jsnum" where
  "effective_base req =
     (if js_gt (Number_of (query_base req)) (Fin 0) then Number_of (query_base req) else Fin 25)"

definition effective_max :: "request \<Rightarrow> jsnum" where
  "effective_max req =
     (if js_gt (Number_of (query_max req)) (Fin 0) then Number_of (query_max req) else Fin 100)"

text \<open>
  The post-pass over the final questions. \<open>toAbsoluteImageUrl(req, \<cdot>)\<close> is the argument
  \<open>absUrl\<close>: it rewrites the image reference and touches no other field.
\<close>

definition normalize_q :: "bool \<Rightarrow> (string option \<Rightarrow> string option) \<Rightarrow> question \<Rightarrow> question" where
  "normalize_q absoluteImages absUrl q =
     (if absoluteImages then q\<lparr>q_image := absUrl (q_image q)\<rparr> else q)"

record response =
  r_base :: jsnum
  r_max :: jsnum
  r_count :: nat
  r_questions :: "question list"

text \<open>
  The outcome of the handler: the object given to \<open>res.json\<close>, or status 500 from the
  \<open>catch\<close> branch. \<open>getAllExamsWithQuestions\<close> is the only call of the \<open>try\<close> block that
  reads the store; its result is the argument \<open>fetched\<close>, \<open>None\<close> when it throws.
\<close>

datatype outcome = Json response | ServerError

definition assembled ::
  "(nat \<Rightarrow> block list \<Rightarrow> block list) \<Rightarrow> (block list \<Rightarrow> block list) \<Rightarrow>
   (string option \<Rightarrow> string option) \<Rightarrow> request \<Rightarrow> exam list option \<Rightarrow> outcome" where
  "assembled shE shG absUrl req fetched =
     (let base = effective_base req;
          mx = effective_max req
      in case fetched of
           None \<Rightarrow> ServerError
         | Some exams \<Rightarrow>
             (let finalQuestions = finalQuestions_of shE shG base mx exams;
                  normalized = map (normalize_q (query_absoluteImages req) absUrl) finalQuestions
              in Json \<lparr>r_base = base, r_max = mx, r_count = length normalized,
                       r_questions = normalized\<rparr>))"

subsection \<open>Notions used to state the properties\<close>

text \<open>The sort key of the comparator: \<open>Number.isFinite(q.setOrder) ? q.setOrder : 0\<close>.\<close>

definition setOrder_key :: "question \<Rightarrow> rat" where
  "setOrder_key q = finite_or_0 (q_setOrder q)"

text \<open>
  The questions of one set, in the order of the exam's question array; the set ids in the
  order in which the array first shows them; the questions that belong to no set.
\<close>

definition bucket :: "question list \<Rightarrow> string \<Rightarrow> question list" where
  "bucket qs k = filter (\<lambda>q. has_setId q \<and> setId_of q = k) qs"

fun first_seen :: "'a list \<Rightarrow> 'a list" where
  "first_seen [] = []"
| "first_seen (x # xs) = x # removeAll x (first_seen xs)"

definition grouped_keys :: "question list \<Rightarrow> string list" where
  "grouped_keys qs = first_seen (map setId_of (filter has_setId qs))"

definition ungrouped :: "question list \<Rightarrow> question list" where
  "ungrouped qs = filter (\<lambda>q. \<not> has_setId q) qs"

text \<open>All questions of a request, and all blocks built from them.\<close>

definition all_questions :: "exam list \<Rightarrow> question list" where
  "all_questions exams = concat (map e_questions exams)"

definition all_built_blocks :: "exam list \<Rightarrow> block list" where
  "all_built_blocks exams = concat (map buildBlocksForExam exams)"

text \<open>
  The walk as the specification words it: a block that does not fit is skipped, whatever
  has been accepted so far, and only an empty list after the whole walk makes the first
  block of the pool the result.
\<close>

fun walk_per_spec :: "jsnum \<Rightarrow> block list \<Rightarrow> question list \<times> nat \<Rightarrow> question list \<times> nat" where
  "walk_per_spec mx [] st = st"
| "walk_per_spec mx (b # bs) (finalQuestions, used) =
     (if js_le (Fin (of_nat (used + length b))) mx
      then walk_per_spec mx bs (finalQuestions @ b, used + length b)
      else walk_per_spec mx bs (finalQuestions, used))"

definition trim_per_spec :: "jsnum \<Rightarrow> block list \<Rightarrow> question list" where
  "trim_per_spec mx pool =
     (let (finalQuestions, used) = walk_per_spec mx pool ([], 0)
      in if finalQuestions = [] then (case pool of [] \<Rightarrow> [] | b # rest \<Rightarrow> b)
         else finalQuestions)"

text \<open>A query parameter that is missing, not a number, or not above zero.\<close>

definition not_positive :: "jsnum option \<Rightarrow> bool" where
  "not_positive p = (case p of None \<Rightarrow> True | Some NaN \<Rightarrow> True | Some NegInf \<Rightarrow> True
                      | Some (Fin x) \<Rightarrow> x \<le> 0 | Some PosInf \<Rightarrow> False)"

text \<open>An exam whose percentage is missing or zero.\<close>

definition zero_weight :: "exam \<Rightarrow> bool" where
  "zero_weight e = (e_questionPercentage e = None \<or> e_questionPercentage e = Some (Fin 0))"

subsection \<open>Example data\<close>

text \<open>
  Two exams, one holding a set of five questions and one holding a single question, an exam
  without a percentage, an exam whose percentage is the double nearest to 1.2, three
  requests, and an arrangement a shuffle may return.
\<close>

definition example_question :: "string \<Rightarrow> string option \<Rightarrow> rat \<Rightarrow> question" where
  "example_question i s ord =
     \<lparr>q_id = i, q_text = [], q_options = [], q_correctAnswer = 0, q_image = None,
      q_setId = s, q_setOrder = Some (Fin ord)\<rparr>"

definition example_set_exam :: exam where
  "example_set_exam =
     \<lparr>e_id = ''e1'', e_title = ''reading'', e_questionPercentage = Some (Fin 20),
      e_questions = [example_question ''a'' (Some ''s'') 2, example_question ''b'' (Some ''s'') 1,
                     example_question ''c'' (Some ''s'') 1, example_question ''d'' (Some ''s'') 0,
                     example_question ''e'' (Some ''s'') 3]\<rparr>"

definition example_set_block :: block where
  "example_set_block =
     [example_question ''d'' (Some ''s'') 0, example_question ''b'' (Some ''s'') 1,
      example_question ''c'' (Some ''s'') 1, example_question ''a'' (Some ''s'') 2,
      example_question ''e'' (Some ''s'') 3]"

definition example_single_exam :: exam where
  "example_single_exam =
     \<lparr>e_id = ''e2'', e_title = ''grammar'', e_questionPercentage = Some (Fin 4),
      e_questions = [example_question ''f'' None 0]\<rparr>"

definition example_exams :: "exam list" where
  "example_exams = [example_set_exam, example_single_exam]"

definition example_request :: request where
  "example_request = \<lparr>query_base = None, query_max = Some (Fin 3), query_absoluteImages = False\<rparr>"

definition keep_order :: "nat \<Rightarrow> 'a list \<Rightarrow> 'a list" where
  "keep_order i xs = xs"

definition example_idle_exam :: exam where
  "example_idle_exam =
     \<lparr>e_id = ''e3'', e_title = ''essay'', e_questionPercentage = None,
      e_questions = [example_question ''g'' None 0, example_question ''h'' (Some ''t'') 1]\<rparr>"

definition example_fraction_exam :: exam where
  "example_fraction_exam =
     \<lparr>e_id = ''e4'', e_title = ''listening'',
      e_questionPercentage = Some (Fin (5404319552844595 / 4503599627370496)),
      e_questions = [example_question ''i'' None 0]\<rparr>"

definition example_request_kept :: request where
  "example_request_kept = \<lparr>query_base = Some (Fin 10), query_max = Some PosInf, query_absoluteImages = True\<rparr>"

definition example_request_defaulted :: request where
  "example_request_defaulted = \<lparr>query_base = Some (Fin (- 3)), query_max = None, query_absoluteImages = True\<rparr>"

section \<open>Properties\<close>

subsection \<open>Sorting\<close>

lemma insert_by_diff: "insert_by (\<lambda>a b. f a - f b) x ys = insort_key f x ys"
  by (induction ys) auto

lemma sort_by_diff: "sort_by (\<lambda>a b. f a - f b) xs = sort_key f xs"
  by (induction xs) (simp_all add: sort_by_def insert_by_diff)

lemma sort_by_setOrder: "sort_by setOrder_cmp xs = sort_key setOrder_key xs"
proof -
  have "setOrder_cmp = (\<lambda>a b. setOrder_key a - setOrder_key b)"
    by (simp add: fun_eq_iff setOrder_cmp_def setOrder_key_def)
  then show ?thesis by (metis sort_by_diff)
qed

lemma sort_by_length: "sort_by length_cmp xs = sort_key (\<lambda>b. (of_nat (length b) :: rat)) xs"
proof -
  have "length_cmp = (\<lambda>a b. (of_nat (length a) :: rat) - of_nat (length b))"
    by (simp add: fun_eq_iff length_cmp_def)
  then show ?thesis by (metis sort_by_diff)
qed

lemma smallest_is_min:
  assumes "sort_by length_cmp pool = s # rest"
  shows "s \<in> set pool \<and> (\<forall>b\<in>set pool. length s \<le> length b)"
proof -
  let ?f = "\<lambda>b::block. (of_nat (length b) :: rat)"
  have eq: "sort_key ?f pool = s # rest" using assms by (simp add: sort_by_length)
  have "set (sort_key ?f pool) = set pool" by simp
  with eq have mem: "s \<in> set pool" and sub: "set rest \<subseteq> set pool" "set pool \<subseteq> insert s (set rest)" by auto
  have "sorted (map ?f (sort_key ?f pool))" by (rule sorted_sort_key)
  with eq have "\<forall>b\<in>set rest. ?f s \<le> ?f b" by simp
  then have "\<forall>b\<in>set pool. length s \<le> length b" using sub by auto
  with mem show ?thesis by simp
qed

subsection \<open>Double arithmetic and the per-exam target\<close>

lemma round_even_int: "round_even (of_int k) = k"
  by (simp add: round_even_def)

lemma round_even_err: "\<bar>of_int (round_even r) - r\<bar> \<le> 1 / 2"
proof -
  have "of_int \<lfloor>r\<rfloor> \<le> r" "r < of_int \<lfloor>r\<rfloor> + 1" by linarith+
  then show ?thesis by (auto simp: round_even_def)
qed

lemma bit_length_bounds:
  "0 < n \<Longrightarrow> 2 ^ (bit_length n - 1) \<le> n \<and> n < 2 ^ bit_length n"
proof (induction n rule: bit_length.induct)
  case (1 n)
  show ?case
  proof (cases "n div 2 \<le> 0")
    case True
    then have "n = 1" using "1.prems" by linarith
    then show ?thesis by (simp add: bit_length.simps [of 1] bit_length.simps [of 0])
  next
    case False
    then have pos: "0 < n div 2" by simp
    have IH: "2 ^ (bit_length (n div 2) - 1) \<le> n div 2 \<and> n div 2 < 2 ^ bit_length (n div 2)"
      using "1.IH" "1.prems" pos by simp
    have k: "1 \<le> bit_length (n div 2)" using pos by (subst bit_length.simps) simp
    have bl: "bit_length n = Suc (bit_length (n div 2))"
      using "1.prems" by (subst bit_length.simps) simp
    have "(2::int) ^ bit_length (n div 2) = 2 * 2 ^ (bit_length (n div 2) - 1)"
      using k by (cases "bit_length (n div 2)") simp_all
    then have "2 ^ bit_length (n div 2) \<le> 2 * (n div 2)" using IH by linarith
    also have "\<dots> \<le> n" by linarith
    finally have lo: "2 ^ (bit_length n - 1) \<le> n" by (simp add: bl)
    have "n < 2 * (n div 2) + 2" by linarith
    also have "\<dots> \<le> 2 * 2 ^ bit_length (n div 2)" using IH by linarith
    finally have "n < 2 ^ bit_length n" by (simp add: bl)
    with lo show ?thesis by simp
  qed
qed

lemma binade_bounds:
  assumes "0 < a"
  shows "2 powi (binade a) \<le> a" and "a < 2 powi (binade a + 1)"
proof -
  obtain p q where pq: "quotient_of a = (p, q)" by (cases "quotient_of a")
  then have q: "0 < q" and a: "a = of_int p / of_int q"
    using quotient_of_denom_pos quotient_of_div by blast+
  then have p: "0 < p" using assms by (simp add: zero_less_divide_iff)
  define lp lq where "lp = bit_length p" and "lq = bit_length q"
  define d where "d = int lp - int lq"
  have bp: "2 ^ (lp - 1) \<le> p" "p < 2 ^ lp"
    using bit_length_bounds [OF p] by (simp_all add: lp_def)
  have bq: "2 ^ (lq - 1) \<le> q" "q < 2 ^ lq"
    using bit_length_bounds [OF q] by (simp_all add: lq_def)
  have lp1: "1 \<le> lp" and lq1: "1 \<le> lq"
    using p q by (simp_all add: lp_def lq_def bit_length.simps [of p] bit_length.simps [of q])
  have P: "(2::rat) ^ (lp - 1) \<le> of_int p" "of_int p < (2::rat) ^ lp"
  proof -
    have "(of_int (2 ^ (lp - 1)) :: rat) \<le> of_int p" using bp(1) by (simp only: of_int_le_iff)
    then show "(2::rat) ^ (lp - 1) \<le> of_int p" by simp
    have "(of_int p :: rat) < of_int (2 ^ lp)" using bp(2) by (simp only: of_int_less_iff)
    then show "of_int p < (2::rat) ^ lp" by simp
  qed
  have Q: "(2::rat) ^ (lq - 1) \<le> of_int q" "of_int q < (2::rat) ^ lq"
  proof -
    have "(of_int (2 ^ (lq - 1)) :: rat) \<le> of_int q" using bq(1) by (simp only: of_int_le_iff)
    then show "(2::rat) ^ (lq - 1) \<le> of_int q" by simp
    have "(of_int q :: rat) < of_int (2 ^ lq)" using bq(2) by (simp only: of_int_less_iff)
    then show "of_int q < (2::rat) ^ lq" by simp
  qed
  have qpos: "(0::rat) < of_int q" using q by simp
  have D: "2 powi d = (2::rat) ^ lp / 2 ^ lq"
    by (simp add: d_def power_int_diff)
  have D1: "2 powi (d + 1) = 2 * (2::rat) ^ lp / 2 ^ lq"
    by (simp add: power_int_add D)
  have D2: "2 powi (d - 1) = (2::rat) ^ lp / 2 ^ lq / 2"
    by (simp add: power_int_diff D)
  have Hq: "(2::rat) ^ lq = 2 * 2 ^ (lq - 1)" using lq1 by (cases lq) simp_all
  have Hp: "(2::rat) ^ lp = 2 * 2 ^ (lp - 1)" using lp1 by (cases lp) simp_all
  have up: "a < 2 powi (d + 1)"
  proof -
    have "a * of_int q = of_int p" using a qpos by simp
    also have "\<dots> < 2 ^ lp" by (rule P(2))
    also have "\<dots> = 2 powi (d + 1) * 2 ^ (lq - 1)"
      unfolding D1 using Hq by simp
    also have "\<dots> \<le> 2 powi (d + 1) * of_int q"
      using Q(1) by (intro mult_left_mono) simp_all
    finally show ?thesis using qpos by simp
  qed
  have lo: "2 powi (d - 1) \<le> a"
  proof -
    have "(0::rat) \<le> 2 powi (d - 1)" by simp
    then have "2 powi (d - 1) * of_int q \<le> 2 powi (d - 1) * (2::rat) ^ lq"
      using Q(2) by (intro mult_left_mono) simp_all
    also have "\<dots> = 2 ^ (lp - 1)"
      unfolding D2 using Hp by simp
    also have "\<dots> \<le> of_int p" by (rule P(1))
    also have "\<dots> = a * of_int q" using a qpos by simp
    finally show ?thesis using qpos by simp
  qed
  have b: "binade a = (if 2 powi d \<le> a then d else d - 1)"
    by (simp add: binade_def pq Let_def d_def lp_def lq_def)
  show "2 powi (binade a) \<le> a" using lo by (simp add: b)
  show "a < 2 powi (binade a + 1)" using up by (auto simp add: b not_le)
qed

lemma binade_less:
  assumes "0 < a" and "a < 2 ^ m"
  shows "binade a < int m"
proof -
  have "2 powi (binade a) \<le> a" using assms(1) by (rule binade_bounds(1))
  also have "a < 2 powi (int m)" using assms(2) by simp
  finally show ?thesis by (intro power_int_le_imp_less_exp [of "2::rat"]) simp_all
qed

lemma quantum_pos: "0 < quantum a"
  by (simp add: quantum_def)

lemma quantum_le:
  assumes "0 < a" and "a < 2 ^ m"
  shows "quantum a \<le> 2 powi (max (int m - 53) (- 1074))"
proof -
  have "binade a < int m" using assms by (rule binade_less)
  then have "max (binade a - 52) (- 1074) \<le> max (int m - 53) (- 1074)" by simp
  then show ?thesis unfolding quantum_def by (intro power_int_increasing) simp_all
qed

lemma overflow_threshold_eq: "overflow_threshold = 2 ^ 1024"
  by (simp add: overflow_threshold_def)

lemma fl_exact:
  assumes "\<bar>x\<bar> / quantum \<bar>x\<bar> = of_int k" and "\<bar>x\<bar> < 2 ^ 1024"
  shows "fl x = Fin x"
proof (cases "x = 0")
  case True
  then show ?thesis by (simp add: fl_def)
next
  case False
  have "round_even (\<bar>x\<bar> / quantum \<bar>x\<bar>) = k"
    by (simp only: assms(1) round_even_int)
  moreover have "of_int k * quantum \<bar>x\<bar> = \<bar>x\<bar>"
    using quantum_pos [of "\<bar>x\<bar>"] assms(1) by (simp add: field_simps)
  ultimately have "of_int (round_even (\<bar>x\<bar> / quantum \<bar>x\<bar>)) * quantum \<bar>x\<bar> = \<bar>x\<bar>"
    by simp
  then show ?thesis using False assms(2) by (simp add: fl_def Let_def not_le overflow_threshold_eq)
qed

lemma dyadic_multiple:
  assumes "0 < a" and "a < 2 ^ m" and "m + j \<le> 53" and "a = of_int n / 2 ^ j"
  shows "\<exists>k. a / quantum a = of_int k"
proof -
  define q where "q = max (binade a - 52) (- 1074)"
  have "binade a < int m" using assms(1,2) by (rule binade_less)
  then have q: "q \<le> - int j" using assms(3) by (simp add: q_def)
  have qa: "quantum a = 2 powi q" by (simp add: quantum_def q_def)
  have "a / quantum a = (of_int n / 2 ^ j) / 2 powi q" by (metis qa assms(4))
  also have "\<dots> = of_int n * (2 powi (- q) / 2 powi (int j))"
    by (simp add: power_int_minus field_simps)
  also have "2 powi (- q) / 2 powi (int j) = (2::rat) powi (- q - int j)"
    by (simp add: power_int_diff)
  also have "\<dots> = 2 ^ nat (- q - int j)" using q by (simp add: power_int_nonneg_exp)
  also have "of_int n * (2::rat) ^ nat (- q - int j) = of_int (n * 2 ^ nat (- q - int j))"
    by simp
  finally show ?thesis by blast
qed

lemma fl_of_int:
  assumes "\<bar>n\<bar> < 2 ^ 53"
  shows "fl (of_int n) = Fin (of_int n)"
proof (cases "n = 0")
  case True
  then show ?thesis by (simp add: fl_def)
next
  case False
  let ?a = "\<bar>of_int n :: rat\<bar>"
  have pos: "0 < ?a" using False by simp
  have "(of_int \<bar>n\<bar> :: rat) < of_int (2 ^ 53)" using assms by (simp only: of_int_less_iff)
  then have small: "?a < 2 ^ 53" by simp
  have "\<exists>k. ?a / quantum ?a = of_int k"
  proof (rule dyadic_multiple [where m = 53 and j = 0 and n = "\<bar>n\<bar>"])
    show "0 < ?a" by (rule pos)
    show "?a < 2 ^ 53" by (rule small)
    show "53 + 0 \<le> (53::nat)" by simp
    show "?a = of_int \<bar>n\<bar> / 2 ^ 0" by simp
  qed
  then obtain k where "?a / quantum ?a = of_int k" by blast
  moreover have "?a < 2 ^ 1024"
    using small power_increasing [of 53 1024 "2::rat"] by simp
  ultimately show ?thesis by (rule fl_exact)
qed

lemma fl_half:
  assumes "x = of_int k / 2" and "\<bar>x\<bar> < 2 ^ 52"
  shows "fl x = Fin x"
proof (cases "x = 0")
  case True
  then show ?thesis by (simp add: fl_def)
next
  case False
  then have pos: "0 < \<bar>x\<bar>" by simp
  have "\<exists>j. \<bar>x\<bar> / quantum \<bar>x\<bar> = of_int j"
  proof (rule dyadic_multiple [where m = 52 and j = 1 and n = "\<bar>k\<bar>"])
    show "0 < \<bar>x\<bar>" by (rule pos)
    show "\<bar>x\<bar> < 2 ^ 52" by (rule assms(2))
    show "52 + 1 \<le> (53::nat)" by simp
    show "\<bar>x\<bar> = of_int \<bar>k\<bar> / 2 ^ 1" using assms(1) by simp
  qed
  then obtain j where "\<bar>x\<bar> / quantum \<bar>x\<bar> = of_int j" by blast
  moreover have "\<bar>x\<bar> < 2 ^ 1024"
    using assms(2) power_increasing [of 52 1024 "2::rat"] by simp
  ultimately show ?thesis by (rule fl_exact)
qed

lemma fl_error:
  assumes "\<bar>x\<bar> < 2 ^ 47"
  shows "\<exists>y. fl x = Fin y \<and> \<bar>y - x\<bar> \<le> 1 / 128"
proof (cases "x = 0")
  case True
  then show ?thesis by (simp add: fl_def)
next
  case False
  let ?a = "\<bar>x\<bar>"
  let ?u = "quantum ?a"
  let ?r = "of_int (round_even (?a / ?u)) :: rat"
  have pos: "0 < ?a" using False by simp
  have u0: "0 < ?u" by (rule quantum_pos)
  have "?u \<le> 2 powi (max (int 47 - 53) (- 1074))" using pos assms by (rule quantum_le)
  then have u: "?u \<le> 1 / 64" by (simp add: power_int_minus)
  have "\<bar>?r - ?a / ?u\<bar> \<le> 1 / 2" by (rule round_even_err)
  then have "\<bar>?r - ?a / ?u\<bar> * ?u \<le> 1 / 2 * ?u" using u0 by (intro mult_right_mono) simp_all
  moreover have e1: "(?r - ?a / ?u) * ?u = ?r * ?u - ?a"
    using u0 by (simp add: left_diff_distrib)
  moreover have "\<bar>?r - ?a / ?u\<bar> * ?u = \<bar>(?r - ?a / ?u) * ?u\<bar>"
    using u0 by (simp add: abs_mult)
  ultimately have "\<bar>?r * ?u - ?a\<bar> \<le> 1 / 2 * ?u" by simp
  then have err: "\<bar>?r * ?u - ?a\<bar> \<le> 1 / 128" using u by linarith
  have "(2::rat) ^ 47 + 1 \<le> 2 ^ 1024"
    using power_increasing [of 48 1024 "2::rat"] by simp
  then have fin: "\<not> overflow_threshold \<le> ?r * ?u"
    unfolding overflow_threshold_eq using err assms by linarith
  show ?thesis
  proof (cases "0 < x")
    case True
    then have "fl x = Fin (?r * ?u)" using fin False by (simp add: fl_def Let_def)
    moreover have "\<bar>?r * ?u - x\<bar> \<le> 1 / 128" using err True by simp
    ultimately show ?thesis by blast
  next
    case neg: False
    then have "fl x = Fin (- (?r * ?u))" using fin False by (simp add: fl_def Let_def)
    moreover have "\<bar>- (?r * ?u) - x\<bar> \<le> 1 / 128" using err neg by (simp add: abs_if split: if_splits)
    ultimately show ?thesis by blast
  qed
qed

lemma round_quotient:
  assumes "\<bar>n\<bar> < 2 ^ 53"
  shows "Math_round (fl (of_int n / 100)) = Fin (of_int \<lfloor>of_int n / 100 + 1 / 2 :: rat\<rfloor>)"
proof -
  let ?x = "of_int n / 100 :: rat"
  define t r where "t = (n + 50) div 100" and "r = (n + 50) mod 100"
  have r: "0 \<le> r" "r < 100" by (simp_all add: r_def)
  have n: "n + 50 = 100 * t + r" by (simp add: t_def r_def)
  then have "(of_int (n + 50) :: rat) = of_int (100 * t + r)" by simp
  then have x: "?x + 1 / 2 = of_int t + of_int r / 100" by (simp add: field_simps)
  have "(of_int \<bar>n\<bar> :: rat) < of_int (2 ^ 53)" using assms by (simp only: of_int_less_iff)
  then have absx: "\<bar>?x\<bar> < 2 ^ 53 / 100" by (simp add: field_simps)
  have fx: "\<lfloor>?x + 1 / 2\<rfloor> = t"
    unfolding x using r by (intro floor_unique) (simp_all add: field_simps)
  show ?thesis
  proof (cases "r = 0")
    case True
    then have "?x = of_int (2 * t - 1) / 2" using x by (simp add: field_simps)
    moreover have "\<bar>?x\<bar> < 2 ^ 52" using absx by simp
    ultimately have "fl ?x = Fin ?x" by (rule fl_half)
    then show ?thesis by (simp add: Math_round_def)
  next
    case False
    then have r1: "1 \<le> r" "r \<le> 99" using r by simp_all
    have "\<bar>?x\<bar> < 2 ^ 47" using absx by simp
    then obtain y where y: "fl ?x = Fin y" "\<bar>y - ?x\<bar> \<le> 1 / 128" using fl_error by blast
    have rr: "(1::rat) \<le> of_int r" "(of_int r :: rat) \<le> 99" using r1 by simp_all
    have yy: "y - ?x \<le> 1 / 128" "?x - y \<le> 1 / 128" using y(2) by linarith+
    have "of_int t \<le> y + 1 / 2" "y + 1 / 2 < of_int t + 1"
      using rr yy x by linarith+
    then have "\<lfloor>y + 1 / 2\<rfloor> = t" by (intro floor_unique)
    then show ?thesis unfolding y(1) fx by (simp add: Math_round_def)
  qed
qed

lemma fl_zero: "fl 0 = Fin 0"
  by (simp add: fl_def)

lemma targetCount_Some:
  "targetCount b (e\<lparr>e_questionPercentage := Some (Fin w)\<rparr>)
     = Math_round (js_div100 (js_mul b (Fin w)))"
  by (simp add: targetCount_def or_0_def)

lemma targetCount_integers:
  assumes "\<bar>B * W\<bar> < 2 ^ 53"
  shows "targetCount (Fin (of_int B)) (e\<lparr>e_questionPercentage := Some (Fin (of_int W))\<rparr>)
         = Fin (of_int \<lfloor>of_int (B * W) / 100 + 1 / 2 :: rat\<rfloor>)"
proof -
  have "js_mul (Fin (of_int B)) (Fin (of_int W)) = fl (of_int (B * W))"
    by (simp add: js_mul_def)
  also have "\<dots> = Fin (of_int (B * W))" using assms by (rule fl_of_int)
  finally have "js_div100 (js_mul (Fin (of_int B)) (Fin (of_int W))) = fl (of_int (B * W) / 100)"
    by (simp add: js_div100_def)
  then show ?thesis
    unfolding targetCount_Some using round_quotient [OF assms] by simp
qed

lemma targetCount_zero_finite:
  assumes "or_0 (e_questionPercentage e) = Fin 0"
  shows "targetCount (Fin b) e = Fin 0"
  using assms
  by (simp add: targetCount_def js_mul_def js_div100_def fl_zero Math_round_def floor_eq_iff)

lemma targetCount_zero_infinite:
  assumes "or_0 (e_questionPercentage e) = Fin 0"
  shows "targetCount PosInf e = NaN"
  using assms
  by (simp add: targetCount_def js_mul_def js_sign_def js_div100_def Math_round_def)

text \<open>
  Claim C5 (rounding of the per-exam target), as the code has it. The product and the
  quotient are rounded to doubles, and the target is the integer nearest to the computed
  quotient \<open>q\<close>, the upper one of two equally near. For an integer \<open>base\<close> and an
  integer percentage whose product is below \<open>2 ^ 53\<close> in magnitude the target is the
  integer nearest to the exact quotient, the upper one of two equally near: it lies in the
  half-open interval from the quotient less 1/2 (excluded) to the quotient plus 1/2
  (included). For a finite \<open>base\<close>, a percentage of zero and a missing percentage give the
  target 0; for the \<open>base\<close> \<open>Infinity\<close> they give \<open>NaN\<close>. Base 25 gives 10 at 40
  percent and 8 at 33 percent.
\<close>

theorem targetCount_rounding:
  "(\<bar>B * W\<bar> < 2 ^ 53 \<longrightarrow>
      targetCount (Fin (of_int B)) (e\<lparr>e_questionPercentage := Some (Fin (of_int W))\<rparr>)
        = Fin (of_int \<lfloor>of_int (B * W) / 100 + 1 / 2 :: rat\<rfloor>))
   \<and> (of_int (B * W) / 100 - 1 / 2 :: rat) < of_int \<lfloor>of_int (B * W) / 100 + 1 / 2 :: rat\<rfloor>
   \<and> of_int \<lfloor>of_int (B * W) / 100 + 1 / 2 :: rat\<rfloor> \<le> (of_int (B * W) / 100 + 1 / 2 :: rat)
   \<and> (js_div100 (js_mul (Fin b) (Fin w)) = Fin q \<longrightarrow>
        targetCount (Fin b) (e\<lparr>e_questionPercentage := Some (Fin w)\<rparr>) = Fin (of_int \<lfloor>q + 1 / 2\<rfloor>)
        \<and> q - 1 / 2 < of_int \<lfloor>q + 1 / 2\<rfloor> \<and> of_int \<lfloor>q + 1 / 2\<rfloor> \<le> q + 1 / 2)
   \<and> targetCount (Fin b) (e\<lparr>e_questionPercentage := Some (Fin 0)\<rparr>) = Fin 0
   \<and> targetCount (Fin b) (e\<lparr>e_questionPercentage := None\<rparr>) = Fin 0
   \<and> targetCount PosInf (e\<lparr>e_questionPercentage := Some (Fin 0)\<rparr>) = NaN
   \<and> targetCount PosInf (e\<lparr>e_questionPercentage := None\<rparr>) = NaN
   \<and> targetCount (Fin 25) (e\<lparr>e_questionPercentage := Some (Fin 40)\<rparr>) = Fin 10
   \<and> targetCount (Fin 25) (e\<lparr>e_questionPercentage := Some (Fin 33)\<rparr>) = Fin 8"
proof -
  let ?x = "of_int (B * W) / 100 :: rat"
  have int: "\<bar>B * W\<bar> < 2 ^ 53 \<longrightarrow>
      targetCount (Fin (of_int B)) (e\<lparr>e_questionPercentage := Some (Fin (of_int W))\<rparr>)
        = Fin (of_int \<lfloor>?x + 1 / 2\<rfloor>)"
    using targetCount_integers by blast
  have lo: "?x - 1 / 2 < of_int \<lfloor>?x + 1 / 2\<rfloor>"
    using floor_correct [of "?x + 1 / 2"] by linarith
  have hi: "of_int \<lfloor>?x + 1 / 2\<rfloor> \<le> ?x + 1 / 2"
    by (rule of_int_floor_le)
  have qlo: "q - 1 / 2 < of_int \<lfloor>q + 1 / 2\<rfloor>"
    using floor_correct [of "q + 1 / 2"] by linarith
  have qhi: "of_int \<lfloor>q + 1 / 2\<rfloor> \<le> q + 1 / 2"
    by (rule of_int_floor_le)
  have dbl: "js_div100 (js_mul (Fin b) (Fin w)) = Fin q \<longrightarrow>
        targetCount (Fin b) (e\<lparr>e_questionPercentage := Some (Fin w)\<rparr>) = Fin (of_int \<lfloor>q + 1 / 2\<rfloor>)
        \<and> q - 1 / 2 < of_int \<lfloor>q + 1 / 2\<rfloor> \<and> of_int \<lfloor>q + 1 / 2\<rfloor> \<le> q + 1 / 2"
    using qlo qhi by (simp add: targetCount_Some Math_round_def)
  have zero: "targetCount (Fin b) (e\<lparr>e_questionPercentage := Some (Fin 0)\<rparr>) = Fin 0"
    by (rule targetCount_zero_finite) (simp add: or_0_def)
  have missing: "targetCount (Fin b) (e\<lparr>e_questionPercentage := None\<rparr>) = Fin 0"
    by (rule targetCount_zero_finite) (simp add: or_0_def)
  have izero: "targetCount PosInf (e\<lparr>e_questionPercentage := Some (Fin 0)\<rparr>) = NaN"
    by (rule targetCount_zero_infinite) (simp add: or_0_def)
  have imissing: "targetCount PosInf (e\<lparr>e_questionPercentage := None\<rparr>) = NaN"
    by (rule targetCount_zero_infinite) (simp add: or_0_def)
  have ex1: "targetCount (Fin 25) (e\<lparr>e_questionPercentage := Some (Fin 40)\<rparr>) = Fin 10"
    using targetCount_integers [of 25 40 e] by (simp add: floor_eq_iff)
  have ex2: "targetCount (Fin 25) (e\<lparr>e_questionPercentage := Some (Fin 33)\<rparr>) = Fin 8"
    using targetCount_integers [of 25 33 e] by (simp add: floor_eq_iff)
  from int lo hi dbl zero missing izero imissing ex1 ex2 show ?thesis by (intro conjI)
qed

subsection \<open>\<open>pickBlocks\<close>\<close>

lemma pick_loop_mset:
  "mset (fst (pick_loop t pool (picked, cnt))) \<subseteq># mset picked + mset pool"
proof (induction pool arbitrary: picked cnt)
  case Nil
  show ?case by simp
next
  case (Cons b pool)
  show ?case
  proof (cases "js_le (Fin (of_nat (cnt + length b))) t")
    case True
    then show ?thesis using Cons.IH [of "picked @ [b]" "cnt + length b"] by simp
  next
    case False
    have "mset picked + mset pool \<subseteq># mset picked + mset (b # pool)" by simp
    moreover have "mset (fst (pick_loop t pool (picked, cnt))) \<subseteq># mset picked + mset pool"
      by (rule Cons.IH)
    ultimately have "mset (fst (pick_loop t pool (picked, cnt))) \<subseteq># mset picked + mset (b # pool)"
      by (rule subset_mset.order_trans [rotated])
    with False show ?thesis by simp
  qed
qed

lemma pick_loop_total:
  "cnt = sum_list (map length picked) \<Longrightarrow>
   snd (pick_loop t pool (picked, cnt)) = sum_list (map length (fst (pick_loop t pool (picked, cnt))))"
proof (induction pool arbitrary: picked cnt)
  case Nil
  then show ?case by simp
next
  case (Cons b pool)
  show ?case
  proof (cases "js_le (Fin (of_nat (cnt + length b))) t")
    case True
    have "cnt + length b = sum_list (map length (picked @ [b]))" using Cons.prems by simp
    from Cons.IH [OF this] True show ?thesis by simp
  next
    case False
    with Cons.IH [OF Cons.prems] show ?thesis by simp
  qed
qed

lemma pick_loop_bound:
  "pick_loop t pool (picked, cnt) = (picked, cnt) \<or>
   js_le (Fin (of_nat (snd (pick_loop t pool (picked, cnt))))) t"
proof (induction pool arbitrary: picked cnt)
  case Nil
  show ?case by simp
next
  case (Cons b pool)
  show ?case
  proof (cases "js_le (Fin (of_nat (cnt + length b))) t")
    case True
    have "js_le (Fin (of_nat (snd (pick_loop t pool (picked @ [b], cnt + length b))))) t"
      using Cons.IH [of "picked @ [b]" "cnt + length b"] True by (elim disjE) simp_all
    with True show ?thesis by simp
  next
    case False
    then show ?thesis using Cons.IH [of picked cnt] by simp
  qed
qed

lemma pick_loop_grows:
  "\<exists>ys. fst (pick_loop t pool (picked, cnt)) = picked @ ys"
proof (induction pool arbitrary: picked cnt)
  case Nil
  show ?case by simp
next
  case (Cons b pool)
  show ?case
  proof (cases "js_le (Fin (of_nat (cnt + length b))) t")
    case True
    obtain ys where "fst (pick_loop t pool (picked @ [b], cnt + length b)) = (picked @ [b]) @ ys"
      using Cons.IH by blast
    with True show ?thesis by simp
  next
    case False
    with Cons.IH [of picked cnt] show ?thesis by simp
  qed
qed

lemma pick_loop_empty_none_fits:
  "fst (pick_loop t pool ([], 0)) = [] \<Longrightarrow> b \<in> set pool \<Longrightarrow>
   \<not> js_le (Fin (of_nat (length b))) t"
proof (induction pool)
  case Nil
  then show ?case by simp
next
  case (Cons a pool)
  show ?case
  proof (cases "js_le (Fin (of_nat (length a))) t")
    case True
    then have "fst (pick_loop t (a # pool) ([], 0)) = fst (pick_loop t pool ([a], length a))"
      by simp
    moreover obtain ys where "fst (pick_loop t pool ([a], length a)) = [a] @ ys"
      using pick_loop_grows by blast
    ultimately show ?thesis using Cons.prems by simp
  next
    case False
    then show ?thesis using Cons by auto
  qed
qed

lemma sort_by_Nil_iff: "sort_by cmp xs = [] \<longleftrightarrow> xs = []"
proof -
  have ins: "\<And>x ys. insert_by cmp x ys \<noteq> []"
    subgoal for x ys by (cases ys) auto
    done
  show ?thesis by (cases xs) (simp_all add: sort_by_def ins)
qed

lemma pickBlocks_nonpositive: "js_le target (Fin 0) \<Longrightarrow> pickBlocks sh blocks target = []"
  by (simp add: pickBlocks_def)

lemma pickBlocks_fitted:
  assumes "\<not> js_le target (Fin 0)" and "fst (pick_loop target (sh blocks) ([], 0)) \<noteq> []"
  shows "pickBlocks sh blocks target = fst (pick_loop target (sh blocks) ([], 0))"
    and "js_le (Fin (of_nat (sum_list (map length (pickBlocks sh blocks target))))) target"
proof -
  let ?r = "pick_loop target (sh blocks) ([], 0)"
  show eq: "pickBlocks sh blocks target = fst ?r"
    using assms by (simp add: pickBlocks_def Let_def case_prod_beta)
  have "?r \<noteq> ([], 0)" using assms(2) by auto
  then have "js_le (Fin (of_nat (snd ?r))) target"
    using pick_loop_bound [of target "sh blocks" "[]" 0] by simp
  moreover have "snd ?r = sum_list (map length (fst ?r))"
    by (rule pick_loop_total) simp
  ultimately show "js_le (Fin (of_nat (sum_list (map length (pickBlocks sh blocks target))))) target"
    using eq by simp
qed

lemma pickBlocks_fallback:
  assumes "js_gt target (Fin 0)" and "\<not> js_le target (Fin 0)"
    and "fst (pick_loop target (sh blocks) ([], 0)) = []" and "sh blocks \<noteq> []"
  shows "\<exists>s rest. sort_by length_cmp (sh blocks) = s # rest \<and> pickBlocks sh blocks target = [s]"
proof -
  obtain s rest where sr: "sort_by length_cmp (sh blocks) = s # rest"
    using assms(4) sort_by_Nil_iff [of length_cmp "sh blocks"]
    by (cases "sort_by length_cmp (sh blocks)") auto
  have "pickBlocks sh blocks target = [s]"
    using assms sr by (simp add: pickBlocks_def Let_def case_prod_beta)
  with sr show ?thesis by blast
qed

lemma pickBlocks_nothing:
  assumes "\<not> js_le target (Fin 0)"
    and "fst (pick_loop target (sh blocks) ([], 0)) = []"
    and "sh blocks = [] \<or> \<not> js_gt target (Fin 0)"
  shows "pickBlocks sh blocks target = []"
  using assms by (auto simp add: pickBlocks_def Let_def case_prod_beta)

lemma pickBlocks_mset:
  assumes "mset (sh blocks) = mset blocks"
  shows "mset (pickBlocks sh blocks target) \<subseteq># mset blocks"
proof (cases "js_le target (Fin 0)")
  case True
  then show ?thesis by (simp add: pickBlocks_nonpositive)
next
  case False
  let ?p = "fst (pick_loop target (sh blocks) ([], 0))"
  have sub: "mset ?p \<subseteq># mset blocks"
    using pick_loop_mset [of target "sh blocks" "[]" 0] assms by simp
  show ?thesis
  proof (cases "?p = []")
    case pnil: True
    show ?thesis
    proof (cases "sh blocks \<noteq> [] \<and> js_gt target (Fin 0)")
      case True
      then obtain s rest where sr: "sort_by length_cmp (sh blocks) = s # rest"
        and eq: "pickBlocks sh blocks target = [s]"
        using pickBlocks_fallback [of target sh blocks] False pnil by blast
      have "s \<in> set (sh blocks)" using smallest_is_min [OF sr] by simp
      then have "s \<in># mset blocks" using assms by (metis set_mset_mset)
      with eq show ?thesis by simp
    next
      case False
      with \<open>\<not> js_le target (Fin 0)\<close> pnil have "pickBlocks sh blocks target = []"
        by (intro pickBlocks_nothing) auto
      then show ?thesis by simp
    qed
  next
    case False
    with \<open>\<not> js_le target (Fin 0)\<close> sub show ?thesis by (simp add: pickBlocks_fitted(1))
  qed
qed

text \<open>
  Claim C4 (contract of \<open>pickBlocks\<close>). For an integer target \<open>t\<close> and a shuffle that
  rearranges its argument: if \<open>t \<le> 0\<close> nothing is selected. If \<open>t > 0\<close> the selected
  blocks hold at most \<open>t\<close> questions in total, unless no block of the pool fits the
  target, and then the selection is one block of the pool, of the least size in the pool.
  Both cases occur as stated: when the pool is not empty and each of its blocks is larger
  than \<open>t\<close>, the selection is exactly one block of least size; when some block fits, the
  selection is not empty and holds at most \<open>t\<close> questions; an empty pool gives an empty
  selection. The selected blocks are blocks of the pool, none taken more often than the
  pool holds it.
\<close>

theorem pickBlocks_contract:
  assumes "is_shuffle shuffle"
  shows "(t \<le> 0 \<longrightarrow> pickBlocks shuffle blocks (Fin (of_int t)) = [])
       \<and> (0 < t \<longrightarrow>
            int (sum_list (map length (pickBlocks shuffle blocks (Fin (of_int t))))) \<le> t
            \<or> ((\<forall>b\<in>set blocks. t < int (length b))
               \<and> (\<exists>b\<in>set blocks. pickBlocks shuffle blocks (Fin (of_int t)) = [b]
                     \<and> length b = Min (length ` set blocks))))
       \<and> (0 < t \<and> blocks \<noteq> [] \<and> (\<forall>b\<in>set blocks. t < int (length b)) \<longrightarrow>
            (\<exists>b\<in>set blocks. pickBlocks shuffle blocks (Fin (of_int t)) = [b]
                \<and> length b = Min (length ` set blocks)))
       \<and> (0 < t \<and> (\<exists>b\<in>set blocks. int (length b) \<le> t) \<longrightarrow>
            pickBlocks shuffle blocks (Fin (of_int t)) \<noteq> []
            \<and> int (sum_list (map length (pickBlocks shuffle blocks (Fin (of_int t))))) \<le> t)
       \<and> (0 < t \<and> blocks = [] \<longrightarrow> pickBlocks shuffle blocks (Fin (of_int t)) = [])
       \<and> mset (pickBlocks shuffle blocks (Fin (of_int t))) \<subseteq># mset blocks"
proof -
  let ?target = "Fin (of_int t)"
  let ?P = "pickBlocks shuffle blocks ?target"
  let ?p = "fst (pick_loop ?target (shuffle blocks) ([], 0))"
  let ?fallback = "\<exists>b\<in>set blocks. ?P = [b] \<and> length b = Min (length ` set blocks)"
  have perm: "mset (shuffle blocks) = mset blocks"
    using assms by (simp add: is_shuffle_def)
  then have sets: "set (shuffle blocks) = set blocks" by (metis set_mset_mset)
  have nil: "shuffle blocks = [] \<longleftrightarrow> blocks = []" using perm by (metis mset_zero_iff)
  have sub: "mset ?P \<subseteq># mset blocks" using perm by (rule pickBlocks_mset)
  have nonpos: "t \<le> 0 \<longrightarrow> ?P = []" by (simp add: pickBlocks_nonpositive)
  have fits: "int (length b) \<le> t \<longleftrightarrow> js_le (Fin (of_nat (length b))) ?target" for b
  proof -
    have "(of_nat (length b) :: rat) \<le> of_int t \<longleftrightarrow> int (length b) \<le> t"
      by (metis of_int_le_iff of_int_of_nat_eq)
    then show ?thesis by simp
  qed
  have fitted: "?P \<noteq> [] \<and> int (sum_list (map length ?P)) \<le> t" if pos: "0 < t" and pne: "?p \<noteq> []"
  proof -
    have nle: "\<not> js_le ?target (Fin 0)" using pos by simp
    have "js_le (Fin (of_nat (sum_list (map length ?P)))) ?target"
      using nle pne by (rule pickBlocks_fitted(2))
    then have "(of_nat (sum_list (map length ?P)) :: rat) \<le> of_int t" by simp
    then have "int (sum_list (map length ?P)) \<le> t"
      by (metis of_int_le_iff of_int_of_nat_eq)
    moreover have "?P = ?p" using nle pne by (rule pickBlocks_fitted(1))
    ultimately show ?thesis using pne by simp
  qed
  have some_fits: "?p \<noteq> []" if "b \<in> set blocks" and "int (length b) \<le> t" for b
  proof
    assume "?p = []"
    moreover have "b \<in> set (shuffle blocks)" using that(1) sets by simp
    ultimately have "\<not> js_le (Fin (of_nat (length b))) ?target"
      by (rule pick_loop_empty_none_fits)
    then show False using that(2) fits by simp
  qed
  have none_fits: "?p = []" if pos: "0 < t" and allbig: "\<forall>b\<in>set blocks. t < int (length b)"
  proof (rule ccontr)
    assume ne: "?p \<noteq> []"
    then obtain b where b: "b \<in> set ?p" by (cases ?p) auto
    have "mset ?p \<subseteq># mset blocks"
      using pick_loop_mset [of ?target "shuffle blocks" "[]" 0] perm by simp
    then have "b \<in> set blocks" using b by (metis mset_subset_eqD set_mset_mset)
    then have big: "t < int (length b)" using allbig by simp
    have "int (sum_list (map length ?p)) \<le> t"
      using fitted [OF pos ne] pickBlocks_fitted(1) [of ?target shuffle blocks] ne pos by simp
    moreover have "length b \<le> sum_list (map length ?p)"
      using b by (simp add: member_le_sum_list)
    ultimately show False using big by linarith
  qed
  have fallback: ?fallback if pos: "0 < t" and bne: "blocks \<noteq> []" and pnil: "?p = []"
  proof -
    have nle: "\<not> js_le ?target (Fin 0)" and gt: "js_gt ?target (Fin 0)" using pos by simp_all
    have ne: "shuffle blocks \<noteq> []" using bne nil by simp
    obtain s rest where sr: "sort_by length_cmp (shuffle blocks) = s # rest" and eq: "?P = [s]"
      using pickBlocks_fallback [of ?target shuffle blocks] gt nle pnil ne by blast
    have mem: "s \<in> set blocks" and least: "\<forall>b\<in>set blocks. length s \<le> length b"
      using smallest_is_min [OF sr] sets by simp_all
    have "Min (length ` set blocks) = length s"
      using mem least by (intro Min_eqI) auto
    then show ?thesis using eq mem by auto
  qed
  have c2: "0 < t \<longrightarrow> int (sum_list (map length ?P)) \<le> t
            \<or> ((\<forall>b\<in>set blocks. t < int (length b)) \<and> ?fallback)"
  proof
    assume pos: "0 < t"
    show "int (sum_list (map length ?P)) \<le> t \<or> ((\<forall>b\<in>set blocks. t < int (length b)) \<and> ?fallback)"
    proof (cases "?p = []")
      case False
      then show ?thesis using fitted [OF pos] by simp
    next
      case pnil: True
      have big: "\<forall>b\<in>set blocks. t < int (length b)" using some_fits pnil by force
      show ?thesis
      proof (cases "blocks = []")
        case True
        then have "?P = []" using pos pnil nil by (intro pickBlocks_nothing) simp_all
        then show ?thesis using pos by simp
      next
        case False
        then show ?thesis using fallback [OF pos False pnil] big by blast
      qed
    qed
  qed
  have c3: "0 < t \<and> blocks \<noteq> [] \<and> (\<forall>b\<in>set blocks. t < int (length b)) \<longrightarrow> ?fallback"
    using fallback none_fits by blast
  have c4: "0 < t \<and> (\<exists>b\<in>set blocks. int (length b) \<le> t) \<longrightarrow>
            ?P \<noteq> [] \<and> int (sum_list (map length ?P)) \<le> t"
    using fitted some_fits by blast
  have c5: "0 < t \<and> blocks = [] \<longrightarrow> ?P = []"
    using sub by auto
  from nonpos c2 c3 c4 c5 sub show ?thesis by (intro conjI)
qed

subsection \<open>\<open>buildBlocksForExam\<close>\<close>

lemma set_first_seen: "set (first_seen xs) = set xs"
  by (induction xs) auto

lemma distinct_first_seen: "distinct (first_seen xs)"
  by (induction xs) (auto simp: distinct_removeAll)

lemma filter_removeAll_absorb: "\<not> P k \<Longrightarrow> filter P (removeAll k xs) = filter P xs"
  by (induction xs) auto

lemma filter_removeAll_conj: "filter (\<lambda>x. P x \<and> x \<noteq> k) xs = filter P (removeAll k xs)"
  by (induction xs) auto

lemma map_fst_groups_push: "map fst (groups_push g k q) = map fst g"
  by (induction g k q rule: groups_push.induct) simp_all

lemma groups_push_new:
  "k \<notin> set (map fst g) \<Longrightarrow> groups_push (g @ [(k, [])]) k q = g @ [(k, [q])]"
  by (induction g) auto

lemma bucket_other: "k \<noteq> setId_of q \<Longrightarrow> bucket (q # qs) k = bucket qs k"
  by (simp add: bucket_def)

lemma extend_absent:
  "setId_of q \<notin> set (map fst g) \<Longrightarrow>
   map (\<lambda>(k, arr). (k, arr @ bucket (q # qs) k)) g = map (\<lambda>(k, arr). (k, arr @ bucket qs k)) g"
  by (induction g) (auto simp: bucket_other)

lemma extend_push:
  assumes "has_setId q" and "distinct (map fst g)"
  shows "map (\<lambda>(k, arr). (k, arr @ bucket qs k)) (groups_push g (setId_of q) q)
         = map (\<lambda>(k, arr). (k, arr @ bucket (q # qs) k)) g"
  using assms(2)
proof (induction g)
  case Nil
  show ?case by simp
next
  case (Cons p g)
  obtain k' arr where p: "p = (k', arr)" by (cases p)
  show ?case
  proof (cases "k' = setId_of q")
    case True
    then have "setId_of q \<notin> set (map fst g)" using Cons.prems p by simp
    then have "map (\<lambda>(k, arr). (k, arr @ bucket (q # qs) k)) g
               = map (\<lambda>(k, arr). (k, arr @ bucket qs k)) g"
      by (rule extend_absent)
    moreover have "bucket (q # qs) (setId_of q) = q # bucket qs (setId_of q)"
      using assms(1) by (simp add: bucket_def)
    ultimately show ?thesis using True p by simp
  next
    case False
    then have "bucket (q # qs) k' = bucket qs k'" by (rule bucket_other)
    moreover have "distinct (map fst g)" using Cons.prems by simp
    ultimately show ?thesis using False p Cons.IH by simp
  qed
qed

lemma extend_other:
  "\<not> has_setId q \<Longrightarrow> bucket (q # qs) k = bucket qs k"
  by (simp add: bucket_def)

lemma bucket_loop_result:
  "distinct (map fst g) \<Longrightarrow>
   bucket_loop qs (g, s) =
     (map (\<lambda>(k, arr). (k, arr @ bucket qs k)) g
        @ map (\<lambda>k. (k, bucket qs k)) (filter (\<lambda>k. k \<notin> set (map fst g)) (grouped_keys qs)),
      s @ map (\<lambda>q. [q]) (ungrouped qs))"
proof (induction qs arbitrary: g s)
  case Nil
  show ?case by (simp add: bucket_def grouped_keys_def ungrouped_def case_prod_beta)
next
  case (Cons q qs)
  show ?case
  proof (cases "has_setId q")
    case False
    have "grouped_keys (q # qs) = grouped_keys qs" "ungrouped (q # qs) = q # ungrouped qs"
      using False by (simp_all add: grouped_keys_def ungrouped_def)
    moreover have "\<And>k. bucket (q # qs) k = bucket qs k" using False by (rule extend_other)
    ultimately show ?thesis using False Cons.IH [OF Cons.prems, of "s @ [[q]]"] by simp
  next
    case True
    let ?k = "setId_of q"
    have keys: "grouped_keys (q # qs) = ?k # removeAll ?k (grouped_keys qs)"
      and ung: "ungrouped (q # qs) = ungrouped qs"
      using True by (simp_all add: grouped_keys_def ungrouped_def)
    show ?thesis
    proof (cases "groups_has g ?k")
      case has: True
      then have mem: "?k \<in> set (map fst g)" by (simp add: groups_has_def)
      have step: "bucket_loop (q # qs) (g, s) = bucket_loop qs (groups_push g ?k q, s)"
        using True has by simp
      have dist: "distinct (map fst (groups_push g ?k q))"
        using Cons.prems by (simp add: map_fst_groups_push)
      have "filter (\<lambda>k. k \<notin> set (map fst g)) (grouped_keys (q # qs))
            = filter (\<lambda>k. k \<notin> set (map fst g)) (grouped_keys qs)"
        using mem by (simp add: keys filter_removeAll_absorb)
      moreover have "map (\<lambda>k. (k, bucket (q # qs) k)) (filter (\<lambda>k. k \<notin> set (map fst g)) (grouped_keys qs))
            = map (\<lambda>k. (k, bucket qs k)) (filter (\<lambda>k. k \<notin> set (map fst g)) (grouped_keys qs))"
        using mem by (intro map_cong) (auto simp: bucket_def)
      ultimately show ?thesis
        unfolding step Cons.IH [OF dist, of s] ung
        using True Cons.prems by (simp add: extend_push map_fst_groups_push)
    next
      case hasnt: False
      then have nmem: "?k \<notin> set (map fst g)" by (simp add: groups_has_def)
      have push: "groups_push (groups_set_empty g ?k) ?k q = g @ [(?k, [q])]"
        using nmem by (simp add: groups_set_empty_def groups_push_new)
      have step: "bucket_loop (q # qs) (g, s) = bucket_loop qs (g @ [(?k, [q])], s)"
        using True hasnt push by (simp add: Let_def)
      have dist: "distinct (map fst (g @ [(?k, [q])]))"
        using Cons.prems nmem by simp
      have old: "map (\<lambda>(k, arr). (k, arr @ bucket (q # qs) k)) g
                 = map (\<lambda>(k, arr). (k, arr @ bucket qs k)) g"
        using nmem by (rule extend_absent)
      have new: "filter (\<lambda>k. k \<notin> set (map fst (g @ [(?k, [q])]))) (grouped_keys qs)
                 = filter (\<lambda>k. k \<notin> set (map fst g)) (removeAll ?k (grouped_keys qs))"
        by (simp add: filter_removeAll_conj [symmetric] conj_commute)
      have rest: "map (\<lambda>k. (k, bucket (q # qs) k)) (filter (\<lambda>k. k \<notin> set (map fst g)) (removeAll ?k (grouped_keys qs)))
                 = map (\<lambda>k. (k, bucket qs k)) (filter (\<lambda>k. k \<notin> set (map fst g)) (removeAll ?k (grouped_keys qs)))"
        by (intro map_cong) (auto simp: bucket_def)
      have head: "bucket (q # qs) ?k = q # bucket qs ?k"
        using True by (simp add: bucket_def)
      have fk: "filter (\<lambda>k. k \<notin> set (map fst g)) (grouped_keys (q # qs))
            = ?k # filter (\<lambda>k. k \<notin> set (map fst g)) (removeAll ?k (grouped_keys qs))"
        using nmem by (simp add: keys)
      show ?thesis
        unfolding step Cons.IH [OF dist, of s] new fk ung
        using True nmem by (force simp add: old rest head bucket_def)
    qed
  qed
qed

lemma buildBlocksForExam_eq:
  "buildBlocksForExam e =
     map (\<lambda>k. sort_key setOrder_key (bucket (e_questions e) k)) (grouped_keys (e_questions e))
       @ map (\<lambda>q. [q]) (ungrouped (e_questions e))"
  by (simp add: buildBlocksForExam_def bucket_loop_result sort_by_setOrder comp_def)

lemma set_grouped_keys: "set (grouped_keys qs) = setId_of ` {q \<in> set qs. has_setId q}"
  by (auto simp: grouped_keys_def set_first_seen)

lemma distinct_grouped_keys: "distinct (grouped_keys qs)"
  by (simp add: grouped_keys_def distinct_first_seen)

lemma mset_filter_disjoint:
  "(\<And>x. \<not> (P x \<and> Q x)) \<Longrightarrow>
   mset (filter P xs) + mset (filter Q xs) = mset (filter (\<lambda>x. P x \<or> Q x) xs)"
  by (induction xs) auto

lemma concat_buckets:
  "distinct K \<Longrightarrow>
   mset (concat (map (bucket qs) K)) = mset (filter (\<lambda>q. has_setId q \<and> setId_of q \<in> set K) qs)"
proof (induction K)
  case Nil
  show ?case by simp
next
  case (Cons k K)
  then have notin: "k \<notin> set K" and IH: "mset (concat (map (bucket qs) K))
      = mset (filter (\<lambda>q. has_setId q \<and> setId_of q \<in> set K) qs)" by simp_all
  have "mset (concat (map (bucket qs) (k # K)))
        = mset (filter (\<lambda>q. has_setId q \<and> setId_of q = k) qs)
          + mset (filter (\<lambda>q. has_setId q \<and> setId_of q \<in> set K) qs)"
    by (simp add: IH bucket_def)
  also have "\<dots> = mset (filter (\<lambda>q. (has_setId q \<and> setId_of q = k)
                                    \<or> (has_setId q \<and> setId_of q \<in> set K)) qs)"
    using notin by (intro mset_filter_disjoint) auto
  also have "\<dots> = mset (filter (\<lambda>q. has_setId q \<and> setId_of q \<in> set (k # K)) qs)"
    by (intro arg_cong [where f = mset] filter_cong) auto
  finally show ?case .
qed

lemma mset_concat_sort:
  "mset (concat (map (\<lambda>k. sort_key f (g k)) K)) = mset (concat (map g K))"
  by (induction K) simp_all

lemma buildBlocksForExam_partition:
  "mset (concat (buildBlocksForExam e)) = mset (e_questions e)"
proof -
  let ?qs = "e_questions e"
  have "mset (concat (map (bucket ?qs) (grouped_keys ?qs)))
        = mset (filter (\<lambda>q. has_setId q \<and> setId_of q \<in> set (grouped_keys ?qs)) ?qs)"
    by (rule concat_buckets) (rule distinct_grouped_keys)
  also have "\<dots> = mset (filter has_setId ?qs)"
    by (intro arg_cong [where f = mset] filter_cong) (auto simp: set_grouped_keys)
  finally have grouped: "mset (concat (map (bucket ?qs) (grouped_keys ?qs))) = mset (filter has_setId ?qs)" .
  have single: "mset (concat (map (\<lambda>q. [q]) (ungrouped ?qs))) = mset (filter (\<lambda>q. \<not> has_setId q) ?qs)"
    by (simp add: ungrouped_def)
  have "mset (concat (buildBlocksForExam e))
        = mset (concat (map (bucket ?qs) (grouped_keys ?qs)))
          + mset (concat (map (\<lambda>q. [q]) (ungrouped ?qs)))"
    by (simp add: buildBlocksForExam_eq mset_concat_sort)
  also have "\<dots> = mset (filter has_setId ?qs) + mset (filter (\<lambda>q. \<not> has_setId q) ?qs)"
    by (simp only: grouped single)
  also have "\<dots> = mset ?qs" by simp
  finally show ?thesis .
qed

lemma buildBlocksForExam_nonempty:
  assumes "b \<in> set (buildBlocksForExam e)"
  shows "b \<noteq> []"
proof -
  let ?qs = "e_questions e"
  from assms consider k where "k \<in> set (grouped_keys ?qs)" "b = sort_key setOrder_key (bucket ?qs k)"
    | q where "b = [q]"
    by (auto simp: buildBlocksForExam_eq)
  then show ?thesis
  proof cases
    case 1
    then obtain q where "q \<in> set ?qs" "has_setId q" "setId_of q = k"
      by (auto simp: set_grouped_keys)
    then have "q \<in> set (bucket ?qs k)" by (simp add: bucket_def)
    then have "q \<in> set b" using 1 by simp
    then show ?thesis by auto
  next
    case 2
    then show ?thesis by simp
  qed
qed

text \<open>
  Claim C6 (\<open>buildBlocksForExam\<close>). The blocks are one block for each set id, in the
  order in which the ids first occur, followed by one single-question block for each
  question without a set id. Each set id occurs once among the keys, and the keys are the
  set ids of the exam's questions. The block of a set is the bucket of that set sorted by
  the comparator: ascending in the sort key, a rearrangement of the bucket, and with the
  questions of equal key in the order the bucket has them. The sort key is 0 for a missing
  or non-finite \<open>setOrder\<close> and the value itself for a finite one. The blocks taken
  together hold every question of the exam once.
\<close>

theorem buildBlocksForExam_correct:
  "buildBlocksForExam e =
     map (\<lambda>k. sort_by setOrder_cmp (bucket (e_questions e) k)) (grouped_keys (e_questions e))
       @ map (\<lambda>q. [q]) (ungrouped (e_questions e))
   \<and> distinct (grouped_keys (e_questions e))
   \<and> set (grouped_keys (e_questions e)) = setId_of ` {q \<in> set (e_questions e). has_setId q}
   \<and> sorted (map setOrder_key (sort_by setOrder_cmp (bucket (e_questions e) k)))
   \<and> mset (sort_by setOrder_cmp (bucket (e_questions e) k)) = mset (bucket (e_questions e) k)
   \<and> filter (\<lambda>q. setOrder_key q = r) (sort_by setOrder_cmp (bucket (e_questions e) k))
       = filter (\<lambda>q. setOrder_key q = r) (bucket (e_questions e) k)
   \<and> setOrder_key (q\<lparr>q_setOrder := None\<rparr>) = 0
   \<and> setOrder_key (q\<lparr>q_setOrder := Some NaN\<rparr>) = 0
   \<and> setOrder_key (q\<lparr>q_setOrder := Some PosInf\<rparr>) = 0
   \<and> setOrder_key (q\<lparr>q_setOrder := Some NegInf\<rparr>) = 0
   \<and> setOrder_key (q\<lparr>q_setOrder := Some (Fin x)\<rparr>) = x
   \<and> mset (concat (buildBlocksForExam e)) = mset (e_questions e)"
proof -
  have keys: "setOrder_key (q\<lparr>q_setOrder := None\<rparr>) = 0"
    "setOrder_key (q\<lparr>q_setOrder := Some NaN\<rparr>) = 0"
    "setOrder_key (q\<lparr>q_setOrder := Some PosInf\<rparr>) = 0"
    "setOrder_key (q\<lparr>q_setOrder := Some NegInf\<rparr>) = 0"
    "setOrder_key (q\<lparr>q_setOrder := Some (Fin x)\<rparr>) = x"
    by (simp_all add: setOrder_key_def finite_or_0_def)
  have stable: "filter (\<lambda>q. setOrder_key q = r) (sort_by setOrder_cmp (bucket (e_questions e) k))
       = filter (\<lambda>q. setOrder_key q = r) (bucket (e_questions e) k)"
    by (simp only: sort_by_setOrder sort_key_stable)
  have srt: "sorted (map setOrder_key (sort_by setOrder_cmp (bucket (e_questions e) k)))"
    by (simp only: sort_by_setOrder sorted_sort_key)
  have ms: "mset (sort_by setOrder_cmp (bucket (e_questions e) k)) = mset (bucket (e_questions e) k)"
    by (simp only: sort_by_setOrder mset_sort)
  have eq: "buildBlocksForExam e =
     map (\<lambda>k. sort_by setOrder_cmp (bucket (e_questions e) k)) (grouped_keys (e_questions e))
       @ map (\<lambda>q. [q]) (ungrouped (e_questions e))"
    by (simp only: buildBlocksForExam_eq sort_by_setOrder)
  show ?thesis
    using eq distinct_grouped_keys [of "e_questions e"]
      set_grouped_keys [of "e_questions e"] srt ms stable keys buildBlocksForExam_partition [of e]
    by (intro conjI)
qed

subsection \<open>The handler\<close>

lemma mset_concat_mono:
  assumes "mset ys \<subseteq># mset zs"
  shows "mset (concat ys) \<subseteq># mset (concat zs)"
proof -
  obtain C where C: "mset zs = mset ys + C"
    using assms by (auto simp: mset_subset_eq_exists_conv)
  obtain cs where cs: "mset cs = C" using ex_mset by blast
  have cat: "\<And>xs :: 'a list list. mset (concat xs) = \<Sum>\<^sub># (image_mset mset (mset xs))"
    by (simp add: mset_concat flip: sum_mset_sum_list)
  have "mset (concat zs) = mset (concat ys) + mset (concat cs)"
    unfolding cat C cs [symmetric] by simp
  then show ?thesis by simp
qed

lemma distinct_mset_subseteq:
  assumes "mset xs \<subseteq># mset ys" and "distinct ys"
  shows "distinct xs"
proof -
  obtain C where C: "mset ys = mset xs + C"
    using assms(1) by (auto simp: mset_subset_eq_exists_conv)
  obtain cs where "mset cs = C" using ex_mset by blast
  with C have "mset ys = mset (xs @ cs)" by simp
  then have "distinct (xs @ cs)" using assms(2) by (metis mset_eq_imp_distinct_iff)
  then show ?thesis by simp
qed

lemma all_built_blocks_partition:
  "mset (concat (all_built_blocks exams)) = mset (all_questions exams)"
  by (induction exams)
     (simp_all add: all_built_blocks_def all_questions_def buildBlocksForExam_partition)

lemma exam_loop_mset:
  assumes "\<forall>i. is_shuffle (shE i)"
  shows "mset (exam_loop shE base exams i acc) \<subseteq># mset acc + mset (all_built_blocks exams)"
proof (induction exams arbitrary: i acc)
  case Nil
  show ?case by (simp add: all_built_blocks_def)
next
  case (Cons e exams)
  let ?p = "pickBlocks (shE i) (buildBlocksForExam e) (targetCount base e)"
  have "mset (shE i (buildBlocksForExam e)) = mset (buildBlocksForExam e)"
    using assms by (simp add: is_shuffle_def)
  then have p: "mset ?p \<subseteq># mset (buildBlocksForExam e)" by (rule pickBlocks_mset)
  have "mset (exam_loop shE base (e # exams) i acc)
        \<subseteq># mset (acc @ ?p) + mset (all_built_blocks exams)"
    using Cons.IH [of "Suc i" "acc @ ?p"] by simp
  also have "\<dots> \<subseteq># mset acc + mset (all_built_blocks (e # exams))"
    using p by (simp add: all_built_blocks_def)
  finally show ?case .
qed

lemma allBlocks_of_mset:
  "\<forall>i. is_shuffle (shE i) \<Longrightarrow> mset (allBlocks_of shE base exams) \<subseteq># mset (all_built_blocks exams)"
  using exam_loop_mset [of shE base exams 0 "[]"] by (simp add: allBlocks_of_def)

lemma trim_loop_blocks:
  "\<exists>ys. fst (trim_loop mx bs (fq, used)) = fq @ concat ys \<and> mset ys \<subseteq># mset bs"
proof (induction bs arbitrary: fq used)
  case Nil
  have "fst (trim_loop mx [] (fq, used)) = fq @ concat [] \<and> mset [] \<subseteq># mset ([] :: block list)"
    by simp
  then show ?case by blast
next
  case (Cons b bs)
  consider (fits) "js_le (Fin (of_nat (used + length b))) mx"
    | (fallback) "\<not> js_le (Fin (of_nat (used + length b))) mx" "used = 0"
    | (skip) "\<not> js_le (Fin (of_nat (used + length b))) mx" "used \<noteq> 0"
    by blast
  then show ?case
  proof cases
    case fits
    obtain ys where ys: "fst (trim_loop mx bs (fq @ b, used + length b)) = (fq @ b) @ concat ys"
      "mset ys \<subseteq># mset bs" using Cons.IH by blast
    have "fst (trim_loop mx (b # bs) (fq, used)) = fq @ concat (b # ys)"
      using fits ys(1) by simp
    moreover have "mset (b # ys) \<subseteq># mset (b # bs)" using ys(2) by simp
    ultimately show ?thesis by blast
  next
    case fallback
    have "fst (trim_loop mx (b # bs) (fq, used)) = fq @ concat [b]" using fallback by simp
    moreover have "mset [b] \<subseteq># mset (b # bs)" by simp
    ultimately show ?thesis by blast
  next
    case skip
    obtain ys where ys: "fst (trim_loop mx bs (fq, used)) = fq @ concat ys"
      "mset ys \<subseteq># mset bs" using Cons.IH by blast
    have "fst (trim_loop mx (b # bs) (fq, used)) = fq @ concat ys" using skip ys(1) by simp
    moreover have "mset ys \<subseteq># mset (b # bs)"
    proof -
      have "mset bs \<subseteq># mset (b # bs)" by simp
      with ys(2) show ?thesis by (rule subset_mset.order_trans)
    qed
    ultimately show ?thesis by blast
  qed
qed

lemma trim_loop_cap:
  assumes "used = length fq" and "js_le (Fin (of_nat used)) mx"
  shows "js_le (Fin (of_nat (length (fst (trim_loop mx bs (fq, used)))))) mx
         \<or> (used = 0 \<and> (\<exists>b\<in>set bs. fst (trim_loop mx bs (fq, used)) = b
                              \<and> \<not> js_le (Fin (of_nat (length b))) mx))"
  using assms
proof (induction bs arbitrary: fq used)
  case Nil
  then show ?case by simp
next
  case (Cons b bs)
  consider (fits) "js_le (Fin (of_nat (used + length b))) mx"
    | (fallback) "\<not> js_le (Fin (of_nat (used + length b))) mx" "used = 0"
    | (skip) "\<not> js_le (Fin (of_nat (used + length b))) mx" "used \<noteq> 0"
    by blast
  then show ?case
  proof cases
    case fits
    have len: "used + length b = length (fq @ b)" using Cons.prems by simp
    from Cons.IH [OF len fits]
    have "js_le (Fin (of_nat (length (fst (trim_loop mx bs (fq @ b, used + length b)))))) mx
         \<or> (used + length b = 0 \<and> (\<exists>c\<in>set bs. fst (trim_loop mx bs (fq @ b, used + length b)) = c
                              \<and> \<not> js_le (Fin (of_nat (length c))) mx))" .
    then show ?thesis using fits by auto
  next
    case fallback
    then have "fq = []" using Cons.prems by simp
    then show ?thesis using fallback by simp
  next
    case skip
    then show ?thesis using Cons.IH [OF Cons.prems] by simp
  qed
qed

lemma effective_max_positive: "js_gt (effective_max req) (Fin 0)"
  by (simp add: effective_max_def)

lemma effective_base_positive: "js_gt (effective_base req) (Fin 0)"
  by (simp add: effective_base_def)

lemma js_gt_zero_le: "js_gt m (Fin 0) \<Longrightarrow> js_le (Fin 0) m"
  by (cases m) simp_all

lemma not_le_gt: "js_gt m (Fin 0) \<Longrightarrow> \<not> js_le (Fin x) m \<Longrightarrow> js_gt (Fin x) m"
  by (cases m) simp_all

lemma add_mset_subseteq:
  assumes "M \<subseteq># N" and "x \<in># N" and "x \<notin># M"
  shows "add_mset x M \<subseteq># N"
proof (rule mset_subset_eqI)
  fix a
  show "count (add_mset x M) a \<le> count N a"
  proof (cases "a = x")
    case True
    have "count M x = 0" using assms(3) by (simp add: not_in_iff)
    moreover have "1 \<le> count N x" using assms(2) by (simp add: Suc_le_eq)
    ultimately show ?thesis using True by simp
  next
    case False
    then show ?thesis using assms(1) by (simp add: mset_subset_eq_count)
  qed
qed

lemma q_id_normalize: "q_id (normalize_q a u q) = q_id q"
  by (simp add: normalize_q_def)

lemma assembled_Some:
  "assembled shE shG absUrl req (Some exams) =
     Json \<lparr>r_base = effective_base req, r_max = effective_max req,
           r_count = length (finalQuestions_of shE shG (effective_base req) (effective_max req) exams),
           r_questions = map (normalize_q (query_absoluteImages req) absUrl)
             (finalQuestions_of shE shG (effective_base req) (effective_max req) exams)\<rparr>"
  by (simp add: assembled_def Let_def)

lemma finalQuestions_blocks:
  assumes "\<forall>i. is_shuffle (shE i)" and "is_shuffle shG"
  shows "\<exists>ys. finalQuestions_of shE shG base mx exams = concat ys
              \<and> mset ys \<subseteq># mset (all_built_blocks exams)"
proof -
  let ?all = "allBlocks_of shE base exams"
  obtain ys where ys: "fst (trim_loop mx (shG ?all) ([], 0)) = [] @ concat ys"
    "mset ys \<subseteq># mset (shG ?all)" using trim_loop_blocks by blast
  have "mset (shG ?all) = mset ?all" using assms(2) by (simp add: is_shuffle_def)
  moreover have "mset ?all \<subseteq># mset (all_built_blocks exams)"
    using assms(1) by (rule allBlocks_of_mset)
  ultimately have "mset ys \<subseteq># mset (all_built_blocks exams)"
    using ys(2) by (metis subset_mset.order_trans)
  with ys(1) show ?thesis by (auto simp: finalQuestions_of_def)
qed

lemma finalQuestions_mset:
  assumes "\<forall>i. is_shuffle (shE i)" and "is_shuffle shG"
  shows "mset (finalQuestions_of shE shG base mx exams) \<subseteq># mset (all_questions exams)"
proof -
  obtain ys where ys: "finalQuestions_of shE shG base mx exams = concat ys"
    "mset ys \<subseteq># mset (all_built_blocks exams)"
    using finalQuestions_blocks [OF assms] by blast
  have "mset (concat ys) \<subseteq># mset (concat (all_built_blocks exams))"
    using ys(2) by (rule mset_concat_mono)
  then show ?thesis by (simp add: ys(1) all_built_blocks_partition)
qed

text \<open>
  Claim C10 (no duplication). Whatever the shuffles return, the ids of the returned
  questions, counted with repetition, are among the ids of the questions of the request;
  when the ids of the request's questions are pairwise different, so are the ids of the
  returned questions.
\<close>

theorem no_duplication:
  assumes "\<forall>i. is_shuffle (shE i)" and "is_shuffle shG"
  shows "\<exists>r. assembled shE shG absUrl req (Some exams) = Json r
           \<and> mset (map q_id (r_questions r)) \<subseteq># mset (map q_id (all_questions exams))
           \<and> (distinct (map q_id (all_questions exams)) \<longrightarrow> distinct (map q_id (r_questions r)))"
proof -
  let ?F = "finalQuestions_of shE shG (effective_base req) (effective_max req) exams"
  let ?r = "\<lparr>r_base = effective_base req, r_max = effective_max req, r_count = length ?F,
             r_questions = map (normalize_q (query_absoluteImages req) absUrl) ?F\<rparr>"
  have ids: "map q_id (r_questions ?r) = map q_id ?F"
    by (simp add: q_id_normalize comp_def)
  have "mset ?F \<subseteq># mset (all_questions exams)"
    using assms by (rule finalQuestions_mset)
  then have sub: "mset (map q_id ?F) \<subseteq># mset (map q_id (all_questions exams))"
    by (simp add: image_mset_subseteq_mono)
  then have "distinct (map q_id (all_questions exams)) \<longrightarrow> distinct (map q_id ?F)"
    using distinct_mset_subseteq by blast
  with sub have "mset (map q_id (r_questions ?r)) \<subseteq># mset (map q_id (all_questions exams))
           \<and> (distinct (map q_id (all_questions exams)) \<longrightarrow> distinct (map q_id (r_questions ?r)))"
    unfolding ids by (rule conjI)
  moreover have "assembled shE shG absUrl req (Some exams) = Json ?r" by (rule assembled_Some)
  ultimately show ?thesis by blast
qed

text \<open>
  Claim C1 (no split). Questions are told apart by their id. Whatever the shuffles
  return, a block built for an exam of the request is returned whole or not at all: either
  every question of the block is in the response or none is.
\<close>

theorem no_split:
  assumes "\<forall>i. is_shuffle (shE i)" and "is_shuffle shG"
    and "distinct (map q_id (all_questions exams))"
    and "e \<in> set exams" and "b \<in> set (buildBlocksForExam e)"
  shows "\<exists>r. assembled shE shG absUrl req (Some exams) = Json r
           \<and> (q_id ` set b \<subseteq> q_id ` set (r_questions r)
              \<or> q_id ` set b \<inter> q_id ` set (r_questions r) = {})"
proof -
  let ?F = "finalQuestions_of shE shG (effective_base req) (effective_max req) exams"
  let ?r = "\<lparr>r_base = effective_base req, r_max = effective_max req, r_count = length ?F,
             r_questions = map (normalize_q (query_absoluteImages req) absUrl) ?F\<rparr>"
  have ids: "q_id ` set (r_questions ?r) = q_id ` set ?F"
    by (auto simp: q_id_normalize image_iff)
  obtain ys where ys: "?F = concat ys" "mset ys \<subseteq># mset (all_built_blocks exams)"
    using finalQuestions_blocks [OF assms(1,2)] by blast
  have bB: "b \<in># mset (all_built_blocks exams)"
    using assms(4,5) by (auto simp: all_built_blocks_def)
  have "q_id ` set b \<subseteq> q_id ` set ?F \<or> q_id ` set b \<inter> q_id ` set ?F = {}"
  proof (cases "b \<in> set ys")
    case True
    then have "set b \<subseteq> set ?F" using ys(1) by auto
    then show ?thesis by blast
  next
    case False
    then have "add_mset b (mset ys) \<subseteq># mset (all_built_blocks exams)"
      using ys(2) bB by (intro add_mset_subseteq) simp_all
    then have "mset (b # ys) \<subseteq># mset (all_built_blocks exams)" by simp
    then have "mset (concat (b # ys)) \<subseteq># mset (concat (all_built_blocks exams))"
      by (rule mset_concat_mono)
    then have "mset (b @ ?F) \<subseteq># mset (all_questions exams)"
      by (simp add: ys(1) all_built_blocks_partition)
    then have "mset (map q_id (b @ ?F)) \<subseteq># mset (map q_id (all_questions exams))"
      by (simp only: mset_map image_mset_subseteq_mono)
    then have "distinct (map q_id (b @ ?F))" using assms(3) by (rule distinct_mset_subseteq)
    then show ?thesis by auto
  qed
  then have "q_id ` set b \<subseteq> q_id ` set (r_questions ?r)
              \<or> q_id ` set b \<inter> q_id ` set (r_questions ?r) = {}" unfolding ids .
  moreover have "assembled shE shG absUrl req (Some exams) = Json ?r" by (rule assembled_Some)
  ultimately show ?thesis by blast
qed

lemma trim_loop_started:
  "used \<noteq> 0 \<Longrightarrow> trim_loop mx bs (fq, used) = walk_per_spec mx bs (fq, used)"
  by (induction bs arbitrary: fq used) simp_all

lemma trim_loop_walk:
  assumes "\<forall>b\<in>set pool. b \<noteq> []"
  shows "fst (trim_loop mx pool ([], 0)) =
     (case pool of [] \<Rightarrow> []
      | b # rest \<Rightarrow> if js_le (Fin (of_nat (length b))) mx
                    then fst (walk_per_spec mx pool ([], 0)) else b)"
proof (cases pool)
  case Nil
  then show ?thesis by simp
next
  case (Cons b rest)
  then have "length b \<noteq> 0" using assms by simp
  then show ?thesis using Cons by (simp add: trim_loop_started)
qed

lemma is_shuffle_set: "is_shuffle sh \<Longrightarrow> set (sh xs) = set xs"
  by (metis is_shuffle_def mset_eq_setD)

lemma all_built_blocks_nonempty: "b \<in> set (all_built_blocks exams) \<Longrightarrow> b \<noteq> []"
  using buildBlocksForExam_nonempty by (auto simp: all_built_blocks_def)

lemma shuffled_pool_nonempty:
  assumes "\<forall>i. is_shuffle (shE i)" and "is_shuffle shG"
  shows "\<forall>b\<in>set (shG (allBlocks_of shE base exams)). b \<noteq> []"
proof
  fix b assume "b \<in> set (shG (allBlocks_of shE base exams))"
  then have "b \<in># mset (allBlocks_of shE base exams)"
    using assms(2) by (simp add: is_shuffle_set)
  then have "b \<in># mset (all_built_blocks exams)"
    using allBlocks_of_mset [OF assms(1), of base exams] by (rule mset_subset_eqD [rotated])
  then show "b \<noteq> []" by (simp add: all_built_blocks_nonempty)
qed

text \<open>
  Claim C3 (the walk of the trim loop), as the code has it. The first block of the shuffled
  pool decides: when it does not fit \<open>max\<close> it alone is the result and no later block is
  tried; when it fits, every later block that does not fit is skipped, the walk goes on to
  the end of the pool, and no oversized block is ever accepted.
\<close>

theorem global_trim_walk:
  assumes "\<forall>i. is_shuffle (shE i)" and "is_shuffle shG"
  shows "finalQuestions_of shE shG base mx exams =
     (case shG (allBlocks_of shE base exams) of
        [] \<Rightarrow> []
      | b # rest \<Rightarrow>
          if js_le (Fin (of_nat (length b))) mx
          then fst (walk_per_spec mx (shG (allBlocks_of shE base exams)) ([], 0))
          else b)"
  unfolding finalQuestions_of_def
  using shuffled_pool_nonempty [OF assms] by (rule trim_loop_walk)

text \<open>
  Claim C2 (global cap). Whatever the shuffles return, the count of the response is at most
  the effective \<open>max\<close>, or the returned questions are those of one block built for an
  exam of the request, and that block is longer than \<open>max\<close>.
\<close>

theorem global_cap:
  assumes "\<forall>i. is_shuffle (shE i)" and "is_shuffle shG"
  shows "\<exists>r. assembled shE shG absUrl req (Some exams) = Json r
           \<and> r_max r = effective_max req
           \<and> (js_le (Fin (of_nat (r_count r))) (r_max r)
              \<or> (\<exists>b\<in>set (all_built_blocks exams).
                     r_questions r = map (normalize_q (query_absoluteImages req) absUrl) b
                     \<and> r_count r = length b
                     \<and> js_gt (Fin (of_nat (length b))) (r_max r)))"
proof -
  let ?mx = "effective_max req"
  let ?pool = "shG (allBlocks_of shE (effective_base req) exams)"
  let ?F = "finalQuestions_of shE shG (effective_base req) ?mx exams"
  let ?N = "normalize_q (query_absoluteImages req) absUrl"
  let ?r = "\<lparr>r_base = effective_base req, r_max = ?mx, r_count = length ?F,
             r_questions = map ?N ?F\<rparr>"
  have pos: "js_gt ?mx (Fin 0)" by (rule effective_max_positive)
  then have zero: "js_le (Fin (of_nat 0)) ?mx" by (simp add: js_gt_zero_le)
  have "js_le (Fin (of_nat (length ?F))) ?mx
        \<or> (\<exists>b\<in>set ?pool. ?F = b \<and> \<not> js_le (Fin (of_nat (length b))) ?mx)"
    using trim_loop_cap [of 0 "[]" ?mx ?pool] zero by (auto simp: finalQuestions_of_def)
  then have "js_le (Fin (of_nat (r_count ?r))) (r_max ?r)
              \<or> (\<exists>b\<in>set (all_built_blocks exams).
                     r_questions ?r = map ?N b \<and> r_count ?r = length b
                     \<and> js_gt (Fin (of_nat (length b))) (r_max ?r))"
  proof
    assume "js_le (Fin (of_nat (length ?F))) ?mx"
    then show ?thesis by simp
  next
    assume "\<exists>b\<in>set ?pool. ?F = b \<and> \<not> js_le (Fin (of_nat (length b))) ?mx"
    then obtain b where b: "b \<in> set ?pool" "?F = b" "\<not> js_le (Fin (of_nat (length b))) ?mx"
      by blast
    have "b \<in># mset (allBlocks_of shE (effective_base req) exams)"
      using b(1) assms(2) by (simp add: is_shuffle_set)
    then have "b \<in># mset (all_built_blocks exams)"
      using allBlocks_of_mset [OF assms(1), of "effective_base req" exams]
      by (rule mset_subset_eqD [rotated])
    moreover have "js_gt (Fin (of_nat (length b))) ?mx" using pos b(3) by (rule not_le_gt)
    ultimately show ?thesis using b(2) by auto
  qed
  moreover have "assembled shE shG absUrl req (Some exams) = Json ?r" by (rule assembled_Some)
  moreover have "r_max ?r = effective_max req" by simp
  ultimately show ?thesis by blast
qed

lemma not_positive_iff: "not_positive p \<longleftrightarrow> \<not> js_gt (Number_of p) (Fin 0)"
proof (cases p)
  case None
  then show ?thesis by (simp add: not_positive_def Number_of_def)
next
  case (Some n)
  then show ?thesis by (cases n) (auto simp add: not_positive_def Number_of_def)
qed

text \<open>
  Claim C7 (defaults of \<open>base\<close> and \<open>max\<close>). Once the exams are fetched the handler
  answers with a JSON object, whatever the query holds. A \<open>base\<close> that is missing, not a
  number or not above zero is answered as 25, such a \<open>max\<close> as 100, and a value above
  zero is answered as given. The returned \<open>base\<close> and \<open>max\<close> are the ones the
  questions were assembled with.
\<close>

theorem input_defaulting:
  "\<exists>r. assembled shE shG absUrl req (Some exams) = Json r
     \<and> r_questions r = map (normalize_q (query_absoluteImages req) absUrl)
                          (finalQuestions_of shE shG (r_base r) (r_max r) exams)
     \<and> (not_positive (query_base req) \<longrightarrow> r_base r = Fin 25)
     \<and> (not_positive (query_max req) \<longrightarrow> r_max r = Fin 100)
     \<and> (\<not> not_positive (query_base req) \<longrightarrow> Some (r_base r) = query_base req)
     \<and> (\<not> not_positive (query_max req) \<longrightarrow> Some (r_max r) = query_max req)"
proof -
  have b1: "not_positive (query_base req) \<longrightarrow> effective_base req = Fin 25"
    by (simp add: not_positive_iff effective_base_def)
  have m1: "not_positive (query_max req) \<longrightarrow> effective_max req = Fin 100"
    by (simp add: not_positive_iff effective_max_def)
  have b2: "\<not> not_positive (query_base req) \<longrightarrow> Some (effective_base req) = query_base req"
    by (cases "query_base req") (auto simp add: not_positive_iff effective_base_def Number_of_def)
  have m2: "\<not> not_positive (query_max req) \<longrightarrow> Some (effective_max req) = query_max req"
    by (cases "query_max req") (auto simp add: not_positive_iff effective_max_def Number_of_def)
  show ?thesis
    unfolding assembled_Some using b1 m1 b2 m2 by simp
qed

lemma pick_loop_NaN: "pick_loop NaN pool st = st"
  by (induction pool arbitrary: st) (auto split: prod.splits)

lemma targetCount_zero_weight:
  assumes "js_gt base (Fin 0)" and "or_0 (e_questionPercentage e) = Fin 0"
  shows "targetCount base e = Fin 0 \<or> targetCount base e = NaN"
proof (cases base)
  case (Fin b)
  then show ?thesis using assms(2) by (simp add: targetCount_zero_finite)
next
  case PosInf
  then show ?thesis using assms(2) by (simp add: targetCount_zero_infinite)
qed (use assms(1) in simp_all)

lemma pickBlocks_zero_weight:
  assumes "js_gt base (Fin 0)" and "or_0 (e_questionPercentage e) = Fin 0"
  shows "pickBlocks sh blocks (targetCount base e) = []"
  using targetCount_zero_weight [OF assms]
  by (auto simp add: pickBlocks_def pick_loop_NaN)

lemma is_shuffle_Nil: "is_shuffle sh \<Longrightarrow> sh [] = []"
  by (metis is_shuffle_def mset_zero_iff)

lemma pickBlocks_no_blocks: "is_shuffle sh \<Longrightarrow> pickBlocks sh [] target = []"
  by (simp add: pickBlocks_def is_shuffle_Nil)

lemma buildBlocksForExam_no_questions: "e_questions e = [] \<Longrightarrow> buildBlocksForExam e = []"
  by (simp add: buildBlocksForExam_def)

lemma exam_loop_nothing:
  assumes "\<forall>e\<in>set exams. \<forall>i. pickBlocks (shE i) (buildBlocksForExam e) (targetCount base e) = []"
  shows "exam_loop shE base exams i acc = acc"
  using assms by (induction exams arbitrary: i acc) simp_all

lemma finalQuestions_nothing:
  assumes "is_shuffle shG" and "allBlocks_of shE base exams = []"
  shows "finalQuestions_of shE shG base mx exams = []"
  using assms by (simp add: finalQuestions_of_def is_shuffle_Nil)

lemma degenerate_allBlocks:
  assumes "\<forall>i. is_shuffle (shE i)" and "js_gt base (Fin 0)"
    and "exams = [] \<or> (\<forall>e\<in>set exams. e_questions e = []) \<or> (\<forall>e\<in>set exams. zero_weight e)"
  shows "allBlocks_of shE base exams = []"
proof -
  have "\<forall>e\<in>set exams. \<forall>i. pickBlocks (shE i) (buildBlocksForExam e) (targetCount base e) = []"
  proof (intro ballI allI)
    fix e i assume e: "e \<in> set exams"
    from assms(3) e consider "e_questions e = []" | "zero_weight e" by auto
    then show "pickBlocks (shE i) (buildBlocksForExam e) (targetCount base e) = []"
    proof cases
      case 1
      then show ?thesis using assms(1) by (simp add: buildBlocksForExam_no_questions pickBlocks_no_blocks)
    next
      case 2
      then have "or_0 (e_questionPercentage e) = Fin 0" by (auto simp: zero_weight_def or_0_def)
      with assms(2) show ?thesis by (rule pickBlocks_zero_weight)
    qed
  qed
  then show ?thesis unfolding allBlocks_of_def by (rule exam_loop_nothing)
qed

text \<open>
  Claim C8 (shape of the response, degenerate inputs). The response holds the effective
  \<open>base\<close> and \<open>max\<close>, and its count is the length of its question list. With no exam,
  with exams that have no question, or with exams whose percentage is missing or zero, the
  response is a JSON object with count 0 and no question.
\<close>

theorem output_shape:
  assumes "\<forall>i. is_shuffle (shE i)" and "is_shuffle shG"
  shows "\<exists>r. assembled shE shG absUrl req (Some exams) = Json r
     \<and> r_base r = effective_base req \<and> r_max r = effective_max req
     \<and> r_count r = length (r_questions r)
     \<and> (exams = [] \<or> (\<forall>e\<in>set exams. e_questions e = []) \<or> (\<forall>e\<in>set exams. zero_weight e)
          \<longrightarrow> r_count r = 0 \<and> r_questions r = [])"
proof -
  have "exams = [] \<or> (\<forall>e\<in>set exams. e_questions e = []) \<or> (\<forall>e\<in>set exams. zero_weight e)
        \<longrightarrow> finalQuestions_of shE shG (effective_base req) (effective_max req) exams = []"
    using degenerate_allBlocks [OF assms(1) effective_base_positive, of exams req]
      finalQuestions_nothing [OF assms(2), of shE "effective_base req" exams "effective_max req"]
    by blast
  then show ?thesis unfolding assembled_Some by simp
qed

subsection \<open>The properties on the example data\<close>

lemma is_shuffle_keep_order: "is_shuffle (keep_order i)"
  by (simp add: is_shuffle_def keep_order_def)

lemma is_shuffle_id: "is_shuffle id"
  by (simp add: is_shuffle_def)

lemma is_shuffle_rev: "is_shuffle rev"
  by (simp add: is_shuffle_def)

lemma example_ids: "distinct (map q_id (all_questions example_exams))"
  by code_simp

lemma example_block: "example_set_block \<in> set (buildBlocksForExam example_set_exam)"
  by code_simp

theorem no_split_witness:
  "is_shuffle (keep_order 0 :: block list \<Rightarrow> block list)
   \<and> is_shuffle (rev :: block list \<Rightarrow> block list)
   \<and> distinct (map q_id (all_questions example_exams))
   \<and> example_set_exam \<in> set example_exams
   \<and> example_set_block \<in> set (buildBlocksForExam example_set_exam)
   \<and> (\<exists>r. assembled keep_order rev id example_request (Some example_exams) = Json r
          \<and> (q_id ` set example_set_block \<subseteq> q_id ` set (r_questions r)
             \<or> q_id ` set example_set_block \<inter> q_id ` set (r_questions r) = {}))"
proof -
  have sh: "\<forall>i. is_shuffle (keep_order i :: block list \<Rightarrow> block list)"
    by (simp add: is_shuffle_keep_order)
  have mem: "example_set_exam \<in> set example_exams" by (simp add: example_exams_def)
  from no_split [OF sh is_shuffle_rev example_ids mem example_block, of id example_request]
  show ?thesis using sh is_shuffle_rev example_ids mem example_block by blast
qed

theorem no_duplication_witness:
  "is_shuffle (keep_order 0 :: block list \<Rightarrow> block list)
   \<and> is_shuffle (rev :: block list \<Rightarrow> block list)
   \<and> distinct (map q_id (all_questions example_exams))
   \<and> (\<exists>r. assembled keep_order rev id example_request (Some example_exams) = Json r
          \<and> mset (map q_id (r_questions r)) \<subseteq># mset (map q_id (all_questions example_exams))
          \<and> distinct (map q_id (r_questions r)))"
proof -
  have sh: "\<forall>i. is_shuffle (keep_order i :: block list \<Rightarrow> block list)"
    by (simp add: is_shuffle_keep_order)
  from no_duplication [OF sh is_shuffle_rev, of id example_request example_exams]
  show ?thesis using sh is_shuffle_rev example_ids by blast
qed

theorem global_cap_witness:
  "is_shuffle (keep_order 0 :: block list \<Rightarrow> block list)
   \<and> is_shuffle (id :: block list \<Rightarrow> block list)
   \<and> (\<exists>r. assembled keep_order id id example_request (Some example_exams) = Json r
          \<and> r_max r = Fin 3 \<and> r_count r = 5
          \<and> (js_le (Fin (of_nat (r_count r))) (r_max r)
             \<or> (\<exists>b\<in>set (all_built_blocks example_exams).
                    r_questions r = map (normalize_q (query_absoluteImages example_request) id) b
                    \<and> r_count r = length b
                    \<and> js_gt (Fin (of_nat (length b))) (r_max r))))"
proof -
  have sh: "\<forall>i. is_shuffle (keep_order i :: block list \<Rightarrow> block list)"
    by (simp add: is_shuffle_keep_order)
  have resp: "assembled keep_order id id example_request (Some example_exams)
      = Json \<lparr>r_base = Fin 25, r_max = Fin 3, r_count = 5, r_questions = example_set_block\<rparr>"
    by code_simp
  from global_cap [OF sh is_shuffle_id, of id example_request example_exams]
  obtain r where r: "assembled keep_order id id example_request (Some example_exams) = Json r"
    "js_le (Fin (of_nat (r_count r))) (r_max r)
             \<or> (\<exists>b\<in>set (all_built_blocks example_exams).
                    r_questions r = map (normalize_q (query_absoluteImages example_request) id) b
                    \<and> r_count r = length b
                    \<and> js_gt (Fin (of_nat (length b))) (r_max r))"
    by blast
  from r(1) resp have "r_max r = Fin 3" "r_count r = 5" by auto
  with r sh is_shuffle_id show ?thesis by blast
qed

text \<open>
  With \<open>max = 3\<close> and the pool in the order set block, single question: the loop returns
  the five questions of the set block, where skipping it and walking on returns the single
  question, which fits.
\<close>

theorem global_trim_walk_counterexample:
  "finalQuestions_of keep_order id (Fin 25) (Fin 3) example_exams = example_set_block
   \<and> trim_per_spec (Fin 3) (id (allBlocks_of keep_order (Fin 25) example_exams))
       = [example_question ''f'' None 0]
   \<and> finalQuestions_of keep_order id (Fin 25) (Fin 3) example_exams
       \<noteq> trim_per_spec (Fin 3) (id (allBlocks_of keep_order (Fin 25) example_exams))"
  by code_simp

theorem global_trim_walk_witness:
  "is_shuffle (keep_order 0 :: block list \<Rightarrow> block list)
   \<and> is_shuffle (rev :: block list \<Rightarrow> block list)
   \<and> is_shuffle (id :: block list \<Rightarrow> block list)
   \<and> rev (allBlocks_of keep_order (Fin 25) example_exams)
       = [[example_question ''f'' None 0], example_set_block]
   \<and> finalQuestions_of keep_order rev (Fin 25) (Fin 3) example_exams
       = fst (walk_per_spec (Fin 3) (rev (allBlocks_of keep_order (Fin 25) example_exams)) ([], 0))
   \<and> allBlocks_of keep_order (Fin 25) example_exams
       = [example_set_block, [example_question ''f'' None 0]]
   \<and> finalQuestions_of keep_order id (Fin 25) (Fin 3) example_exams = example_set_block"
proof -
  have sh: "\<forall>i. is_shuffle (keep_order i :: block list \<Rightarrow> block list)"
    by (simp add: is_shuffle_keep_order)
  have pool: "rev (allBlocks_of keep_order (Fin 25) example_exams)
       = [[example_question ''f'' None 0], example_set_block]"
    by code_simp
  have pool': "allBlocks_of keep_order (Fin 25) example_exams
       = [example_set_block, [example_question ''f'' None 0]]"
    by code_simp
  have len: "length example_set_block = 5" by (simp add: example_set_block_def)
  from global_trim_walk [OF sh is_shuffle_rev, of "Fin 25" "Fin 3" example_exams]
  have 1: "finalQuestions_of keep_order rev (Fin 25) (Fin 3) example_exams
       = fst (walk_per_spec (Fin 3) (rev (allBlocks_of keep_order (Fin 25) example_exams)) ([], 0))"
    by (simp add: pool)
  from global_trim_walk [OF sh is_shuffle_id, of "Fin 25" "Fin 3" example_exams]
  have 2: "finalQuestions_of keep_order id (Fin 25) (Fin 3) example_exams = example_set_block"
    by (simp add: pool' len)
  from sh is_shuffle_rev is_shuffle_id pool pool' 1 2 show ?thesis by blast
qed

text \<open>
  The base \<open>Infinity\<close> with a missing percentage gives the target \<open>NaN\<close>, not 0. The
  base 125 with the double nearest to 1.2 gives the target 2: the product is rounded to the
  double 150 and the quotient is 1.5, while the exact quotient lies below 1.5 and the
  integer nearest to it is 1.
\<close>

theorem targetCount_rounding_counterexample:
  "e_questionPercentage example_idle_exam = None
   \<and> targetCount PosInf example_idle_exam = NaN
   \<and> e_questionPercentage example_fraction_exam
       = Some (Fin (5404319552844595 / 4503599627370496))
   \<and> targetCount (Fin 125) example_fraction_exam = Fin 2
   \<and> \<lfloor>125 * (5404319552844595 / 4503599627370496) / 100 + 1 / 2 :: rat\<rfloor> = 1
   \<and> js_div100 (js_mul (Fin 125) (Fin (5404319552844595 / 4503599627370496))) = Fin (3 / 2)"
  by code_simp

theorem targetCount_rounding_witness:
  "\<bar>25 * 33 :: int\<bar> < 2 ^ 53
   \<and> targetCount (Fin 25) (example_single_exam\<lparr>e_questionPercentage := Some (Fin 33)\<rparr>) = Fin 8
   \<and> js_div100 (js_mul (Fin 125) (Fin (5404319552844595 / 4503599627370496))) = Fin (3 / 2)
   \<and> targetCount (Fin 125)
        (example_single_exam\<lparr>e_questionPercentage := Some (Fin (5404319552844595 / 4503599627370496))\<rparr>)
       = Fin 2"
proof -
  have q: "js_div100 (js_mul (Fin 125) (Fin (5404319552844595 / 4503599627370496))) = Fin (3 / 2)"
    by code_simp
  have "targetCount (Fin (of_int 25)) (example_single_exam\<lparr>e_questionPercentage := Some (Fin (of_int 33))\<rparr>)
        = Fin (of_int \<lfloor>of_int (25 * 33) / 100 + 1 / 2 :: rat\<rfloor>)"
    using targetCount_rounding [of 25 33 example_single_exam] by simp
  then have a: "targetCount (Fin 25) (example_single_exam\<lparr>e_questionPercentage := Some (Fin 33)\<rparr>) = Fin 8"
    by (simp add: floor_eq_iff)
  have "targetCount (Fin 125)
        (example_single_exam\<lparr>e_questionPercentage := Some (Fin (5404319552844595 / 4503599627370496))\<rparr>)
       = Fin (of_int \<lfloor>3 / 2 + 1 / 2 :: rat\<rfloor>)"
    using targetCount_rounding [of _ _ example_single_exam 125 "5404319552844595 / 4503599627370496" "3 / 2"] q
    by blast
  then have b: "targetCount (Fin 125)
        (example_single_exam\<lparr>e_questionPercentage := Some (Fin (5404319552844595 / 4503599627370496))\<rparr>)
       = Fin 2" by simp
  from a b q show ?thesis by simp
qed

theorem pickBlocks_contract_witness:
  "is_shuffle (rev :: block list \<Rightarrow> block list)
   \<and> pickBlocks rev [example_set_block] (Fin (of_int 0)) = []
   \<and> (0 :: int) < 3
   \<and> [example_set_block] \<noteq> []
   \<and> (3 :: int) < int (length example_set_block)
   \<and> pickBlocks rev [example_set_block] (Fin (of_int 3)) = [example_set_block]
   \<and> length example_set_block = Min (length ` set [example_set_block])
   \<and> int (length [example_question ''f'' None 0]) \<le> 3
   \<and> pickBlocks rev [example_set_block, [example_question ''f'' None 0]] (Fin (of_int 3))
       = [[example_question ''f'' None 0]]
   \<and> int (sum_list (map length
         (pickBlocks rev [example_set_block, [example_question ''f'' None 0]] (Fin (of_int 3))))) \<le> 3"
proof -
  let ?f = "[example_question ''f'' None 0]"
  have len: "length example_set_block = 5" by (simp add: example_set_block_def)
  have c0: "pickBlocks rev [example_set_block] (Fin (of_int 0)) = []"
    using pickBlocks_contract [OF is_shuffle_rev, of 0 "[example_set_block]"] by simp
  have "\<exists>b\<in>set [example_set_block]. pickBlocks rev [example_set_block] (Fin (of_int 3)) = [b]
          \<and> length b = Min (length ` set [example_set_block])"
    using pickBlocks_contract [OF is_shuffle_rev, of 3 "[example_set_block]"] len by simp
  then have c1: "pickBlocks rev [example_set_block] (Fin (of_int 3)) = [example_set_block]"
    and c2: "length example_set_block = Min (length ` set [example_set_block])" by simp_all
  have "\<exists>b\<in>set [example_set_block, ?f]. int (length b) \<le> 3" by simp
  moreover have "(0::int) < 3" by simp
  ultimately have c3: "int (sum_list (map length
         (pickBlocks rev [example_set_block, ?f] (Fin (of_int 3))))) \<le> 3"
    using pickBlocks_contract [OF is_shuffle_rev, of 3 "[example_set_block, ?f]"] by blast
  have c4: "pickBlocks rev [example_set_block, ?f] (Fin (of_int 3)) = [?f]"
    by code_simp
  from is_shuffle_rev c0 c1 c2 c3 c4 len show ?thesis by simp
qed

theorem input_defaulting_witness:
  "not_positive (query_base example_request_defaulted)
   \<and> not_positive (query_max example_request_defaulted)
   \<and> (\<exists>r. assembled keep_order rev id example_request_defaulted (Some example_exams) = Json r
          \<and> r_base r = Fin 25 \<and> r_max r = Fin 100)
   \<and> \<not> not_positive (query_base example_request_kept)
   \<and> \<not> not_positive (query_max example_request_kept)
   \<and> (\<exists>r. assembled keep_order rev id example_request_kept (Some example_exams) = Json r
          \<and> r_base r = Fin 10 \<and> r_max r = PosInf)"
proof -
  have d: "not_positive (query_base example_request_defaulted)"
    "not_positive (query_max example_request_defaulted)"
    by (simp_all add: example_request_defaulted_def not_positive_def)
  have k: "\<not> not_positive (query_base example_request_kept)"
    "\<not> not_positive (query_max example_request_kept)"
    "query_base example_request_kept = Some (Fin 10)"
    "query_max example_request_kept = Some PosInf"
    by (simp_all add: example_request_kept_def not_positive_def)
  from input_defaulting [of keep_order rev id example_request_defaulted example_exams] d
  have 1: "\<exists>r. assembled keep_order rev id example_request_defaulted (Some example_exams) = Json r
          \<and> r_base r = Fin 25 \<and> r_max r = Fin 100" by blast
  from input_defaulting [of keep_order rev id example_request_kept example_exams] k
  have 2: "\<exists>r. assembled keep_order rev id example_request_kept (Some example_exams) = Json r
          \<and> r_base r = Fin 10 \<and> r_max r = PosInf" by auto
  from d k(1,2) 1 2 show ?thesis by blast
qed

theorem output_shape_witness:
  "is_shuffle (keep_order 0 :: block list \<Rightarrow> block list)
   \<and> is_shuffle (rev :: block list \<Rightarrow> block list)
   \<and> zero_weight example_idle_exam
   \<and> (\<exists>r. assembled keep_order rev id example_request (Some [example_idle_exam]) = Json r
          \<and> r_base r = Fin 25 \<and> r_max r = Fin 3
          \<and> r_count r = length (r_questions r) \<and> r_count r = 0 \<and> r_questions r = [])"
proof -
  have sh: "\<forall>i. is_shuffle (keep_order i :: block list \<Rightarrow> block list)"
    by (simp add: is_shuffle_keep_order)
  have z: "zero_weight example_idle_exam"
    by (simp add: zero_weight_def example_idle_exam_def)
  then have hyp: "[example_idle_exam] = [] \<or> (\<forall>e\<in>set [example_idle_exam]. e_questions e = [])
        \<or> (\<forall>e\<in>set [example_idle_exam]. zero_weight e)" by simp
  have eff: "effective_base example_request = Fin 25" "effective_max example_request = Fin 3"
    by (simp_all add: effective_base_def effective_max_def example_request_def Number_of_def)
  from output_shape [OF sh is_shuffle_rev, of id example_request "[example_idle_exam]"] hyp eff
  have "\<exists>r. assembled keep_order rev id example_request (Some [example_idle_exam]) = Json r
          \<and> r_base r = Fin 25 \<and> r_max r = Fin 3
          \<and> r_count r = length (r_questions r) \<and> r_count r = 0 \<and> r_questions r = []"
    by auto
  with sh z is_shuffle_rev show ?thesis by blast
qed

end
